theory Spec2Isabelle
  imports
    Main
    "HOL-Library.Word"
    "HOL-Library.Char_ord"
    "HOL-Library.List_Lexorder"
    "HOL-Library.AList"
    "HOL-Library.Multiset"
begin

unbundle bit_operations_syntax

section \<open>The drawing store service of \<^verbatim>\<open>backend/main.py\<close>\<close>

text \<open>
  The service is five request handlers over one SQLite table. Everything a handler takes
  from its environment is a parameter of its model: the table (passed in and returned),
  the sixteen random bytes behind \<^verbatim>\<open>uuid.uuid4()\<close> and the reading of
  \<^verbatim>\<open>datetime.now()\<close>. Every \<^verbatim>\<open>raise\<close> of a handler is a value
  of the result type.

  Python \<^verbatim>\<open>str\<close> is modelled as \<^typ>\<open>string\<close> (characters up to U+00FF), Python
  \<^verbatim>\<open>int\<close> as \<^typ>\<open>int\<close>. Python \<^verbatim>\<open>float\<close> is not modelled: a document of the
  model holds no floating-point number.
\<close>

subsection \<open>Exceptions\<close>

datatype py_exception =
    IntegrityError
  | JSONDecodeError
  | ValidationError
  | TypeError

text \<open>
  \<^verbatim>\<open>HTTPException(status_code, detail)\<close>. For the handlers' catch-all
  \<^verbatim>\<open>except Exception as e\<close> the detail is the f-string's fixed prefix and
  \<open>cause\<close> is the exception whose \<^verbatim>\<open>str(e)\<close> follows it.
\<close>

datatype http_exception =
  HTTPException (status_code: nat) (detail: string) (cause: "py_exception option")

subsection \<open>JSON documents and the \<^verbatim>\<open>json\<close> module\<close>

datatype json =
    JNull
  | JBool bool
  | JInt int
  | JStr string
  | JArr "json list"
  | JObj "(string \<times> json) list"

type_synonym dict = "(string \<times> json) list"

text \<open>
  A Python \<^verbatim>\<open>dict\<close> keeps its keys in insertion order and holds each key once:
  an association list is a dict when its keys are distinct. A term of \<^typ>\<open>json\<close> is a
  Python value when this holds of every \<open>JObj\<close> in it.
\<close>

fun python_value :: "json \<Rightarrow> bool" where
  "python_value JNull = True"
| "python_value (JBool b) = True"
| "python_value (JInt i) = True"
| "python_value (JStr s) = True"
| "python_value (JArr vs) = list_all python_value vs"
| "python_value (JObj ms) = (distinct (map fst ms) \<and> list_all (\<lambda>kv. python_value (snd kv)) ms)"

text \<open>\<^verbatim>\<open>dict(pairs)\<close>: a repeated key keeps its first position and its last value.\<close>

definition py_dict :: "(string \<times> json) list \<Rightarrow> dict" where
  "py_dict pairs = foldl (\<lambda>d kv. AList.update (fst kv) (snd kv) d) [] pairs"

abbreviation quote :: char where "quote \<equiv> CHR 0x22"
abbreviation backslash :: char where "backslash \<equiv> CHR 0x5C"

definition hexdigit :: "nat \<Rightarrow> char" where
  "hexdigit d = char_of (if d < 10 then 48 + d else 87 + d)"

text \<open>\<^verbatim>\<open>'\\u{0:04x}'.format(n)\<close>\<close>

definition hex4 :: "nat \<Rightarrow> string" where
  "hex4 n = [hexdigit (n div 4096 mod 16), hexdigit (n div 256 mod 16),
             hexdigit (n div 16 mod 16), hexdigit (n mod 16)]"

text \<open>
  \<^verbatim>\<open>encode_basestring_ascii\<close> (the default \<^verbatim>\<open>ensure_ascii=True\<close>): the quote, the
  backslash and every character outside \<^verbatim>\<open>' '..'~'\<close> are escaped.
\<close>

definition escape_char :: "char \<Rightarrow> string" where
  "escape_char c =
     (if c = quote then [backslash, quote]
      else if c = backslash then [backslash, backslash]
      else if c = CHR 0x0A then [backslash, CHR ''n'']
      else if c = CHR 0x0D then [backslash, CHR ''r'']
      else if c = CHR 0x09 then [backslash, CHR ''t'']
      else if c = CHR 0x08 then [backslash, CHR ''b'']
      else if c = CHR 0x0C then [backslash, CHR ''f'']
      else if 0x20 \<le> (of_char c :: nat) \<and> (of_char c :: nat) \<le> 0x7E then [c]
      else backslash # CHR ''u'' # hex4 (of_char c))"

definition encode_basestring_ascii :: "string \<Rightarrow> string" where
  "encode_basestring_ascii s = quote # concat (map escape_char s) @ [quote]"

text \<open>\<^verbatim>\<open>str(n)\<close> for an \<^verbatim>\<open>int\<close>\<close>

fun str_nat :: "nat \<Rightarrow> string" where
  "str_nat n =
     (if n < 10 then [char_of (48 + n)]
      else str_nat (n div 10) @ [char_of (48 + n mod 10)])"

definition str_int :: "int \<Rightarrow> string" where
  "str_int i = (if i < 0 then CHR ''-'' # str_nat (nat (- i)) else str_nat (nat i))"

text \<open>\<^verbatim>\<open>', '.join(parts)\<close>\<close>

fun join_comma :: "string list \<Rightarrow> string" where
  "join_comma [] = []"
| "join_comma [x] = x"
| "join_comma (x # y # ys) = x @ '', '' @ join_comma (y # ys)"

text \<open>
  \<^verbatim>\<open>json.dumps(obj)\<close> with its defaults: item separator \<^verbatim>\<open>', '\<close>, key separator
  \<^verbatim>\<open>': '\<close>, no indentation, keys in the dict's own order.
\<close>

fun json_dumps :: "json \<Rightarrow> string" where
  "json_dumps JNull = ''null''"
| "json_dumps (JBool b) = (if b then ''true'' else ''false'')"
| "json_dumps (JInt i) = str_int i"
| "json_dumps (JStr s) = encode_basestring_ascii s"
| "json_dumps (JArr vs) = ''['' @ join_comma (map json_dumps vs) @ '']''"
| "json_dumps (JObj ms) =
     ''{'' @ join_comma (map (\<lambda>kv. encode_basestring_ascii (fst kv) @ '': '' @ json_dumps (snd kv)) ms)
       @ ''}''"

text \<open>The decoder. \<^verbatim>\<open>WHITESPACE = re.compile(r'[ \t\n\r]*')\<close>\<close>

definition is_ws :: "char \<Rightarrow> bool" where
  "is_ws c = (c = CHR '' '' \<or> c = CHR 0x09 \<or> c = CHR 0x0A \<or> c = CHR 0x0D)"

definition skip_ws :: "string \<Rightarrow> string" where
  "skip_ws s = dropWhile is_ws s"

definition is_digit :: "char \<Rightarrow> bool" where
  "is_digit c = (48 \<le> (of_char c :: nat) \<and> (of_char c :: nat) \<le> 57)"

definition nat_of_digits :: "string \<Rightarrow> nat" where
  "nat_of_digits ds = foldl (\<lambda>a c. 10 * a + (of_char c - 48)) 0 ds"

text \<open>
  \<^verbatim>\<open>NUMBER_RE = (-?(?:0|[1-9][0-9]*))(\.[0-9]+)?([eE][-+]?[0-9]+)?\<close>: the integer
  group, then whether a fraction or an exponent follows it.
\<close>

fun match_magnitude :: "string \<Rightarrow> (nat \<times> string) option" where
  "match_magnitude [] = None"
| "match_magnitude (c # cs) =
     (if c = CHR ''0'' then Some (0, cs)
      else if is_digit c then
        Some (nat_of_digits (c # takeWhile is_digit cs), dropWhile is_digit cs)
      else None)"

fun match_integer :: "string \<Rightarrow> (int \<times> string) option" where
  "match_integer [] = None"
| "match_integer (c # cs) =
     (if c = CHR ''-'' then
        (case match_magnitude cs of None \<Rightarrow> None | Some (n, r) \<Rightarrow> Some (- int n, r))
      else
        (case match_magnitude (c # cs) of None \<Rightarrow> None | Some (n, r) \<Rightarrow> Some (int n, r)))"

fun float_tail :: "string \<Rightarrow> bool" where
  "float_tail (c # d # ds) =
     ((c = CHR ''.'' \<and> is_digit d) \<or>
      ((c = CHR ''e'' \<or> c = CHR ''E'') \<and>
       (is_digit d \<or>
        ((d = CHR ''+'' \<or> d = CHR ''-'') \<and> (case ds of [] \<Rightarrow> False | e # _ \<Rightarrow> is_digit e)))))"
| "float_tail _ = False"

definition hex_val :: "char \<Rightarrow> nat option" where
  "hex_val c =
     (let n = (of_char c :: nat) in
      if 48 \<le> n \<and> n \<le> 57 then Some (n - 48)
      else if 97 \<le> n \<and> n \<le> 102 then Some (n - 87)
      else if 65 \<le> n \<and> n \<le> 70 then Some (n - 55)
      else None)"

fun decode_hex4 :: "string \<Rightarrow> nat option" where
  "decode_hex4 [a, b, c, d] =
     (case (hex_val a, hex_val b, hex_val c, hex_val d) of
        (Some x, Some y, Some z, Some w) \<Rightarrow> Some (4096 * x + 256 * y + 16 * z + w)
      | _ \<Rightarrow> None)"
| "decode_hex4 _ = None"

text \<open>The \<^verbatim>\<open>BACKSLASH\<close> table of the decoder.\<close>

definition unescape :: "char \<Rightarrow> char option" where
  "unescape e =
     (if e = quote then Some quote
      else if e = backslash then Some backslash
      else if e = CHR ''/'' then Some CHR ''/''
      else if e = CHR ''b'' then Some (CHR 0x08)
      else if e = CHR ''f'' then Some (CHR 0x0C)
      else if e = CHR ''n'' then Some (CHR 0x0A)
      else if e = CHR ''r'' then Some (CHR 0x0D)
      else if e = CHR ''t'' then Some (CHR 0x09)
      else None)"

text \<open>
  \<^verbatim>\<open>scanstring(s, end, strict=True)\<close>, entered after the opening quote: the decoded
  string and what follows the closing quote. \<open>None\<close> is the decoder's
  \<^verbatim>\<open>JSONDecodeError\<close>: an unterminated string, a bad escape, a raw control
  character. A \<^verbatim>\<open>\uXXXX\<close> escape above U+00FF names a character \<^typ>\<open>char\<close> does
  not have; the model gives \<open>None\<close> for it too.
\<close>

fun scanstring :: "string \<Rightarrow> (string \<times> string) option" where
  "scanstring [] = None"
| "scanstring (c # cs) =
     (if c = quote then Some ([], cs)
      else if c = backslash then
        (case cs of
           [] \<Rightarrow> None
         | e # cs' \<Rightarrow>
             if e = CHR ''u'' then
               (case decode_hex4 (take 4 cs') of
                  None \<Rightarrow> None
                | Some n \<Rightarrow>
                    if n < 256 then
                      (case scanstring (drop 4 cs') of
                         None \<Rightarrow> None
                       | Some (t, r) \<Rightarrow> Some (char_of n # t, r))
                    else None)
             else
               (case unescape e of
                  None \<Rightarrow> None
                | Some x \<Rightarrow>
                    (case scanstring cs' of
                       None \<Rightarrow> None
                     | Some (t, r) \<Rightarrow> Some (x # t, r))))
      else if (of_char c :: nat) < 0x20 then None
      else
        (case scanstring cs of
           None \<Rightarrow> None
         | Some (t, r) \<Rightarrow> Some (c # t, r)))"

text \<open>
  \<^verbatim>\<open>scan_once\<close>, \<^verbatim>\<open>JSONArray\<close> and \<^verbatim>\<open>JSONObject\<close> call each other; the first
  argument bounds the depth of these calls, and \<open>None\<close> is a \<^verbatim>\<open>JSONDecodeError\<close> (or
  the bound reached). A number with a fraction or an exponent, \<^verbatim>\<open>NaN\<close> and
  \<^verbatim>\<open>Infinity\<close> are floats in Python and \<open>None\<close> here. \<open>JSONArray\<close> and
  \<open>JSONObject\<close> are entered at the first item, after the look-ahead for the empty
  container.
\<close>

fun scan_once :: "nat \<Rightarrow> string \<Rightarrow> (json \<times> string) option"
  and JSONArray :: "nat \<Rightarrow> string \<Rightarrow> (json list \<times> string) option"
  and JSONObject :: "nat \<Rightarrow> string \<Rightarrow> ((string \<times> json) list \<times> string) option"
where
  "scan_once 0 s = None"
| "scan_once (Suc n) [] = None"
| "scan_once (Suc n) (c # cs) =
     (if c = quote then
        (case scanstring cs of None \<Rightarrow> None | Some (t, r) \<Rightarrow> Some (JStr t, r))
      else if c = CHR ''{'' then
        (case skip_ws cs of
           [] \<Rightarrow> None
         | d # ds \<Rightarrow>
             if d = CHR ''}'' then Some (JObj [], ds)
             else
               (case JSONObject n (d # ds) of
                  None \<Rightarrow> None
                | Some (pairs, r) \<Rightarrow> Some (JObj (py_dict pairs), r)))
      else if c = CHR ''['' then
        (case skip_ws cs of
           [] \<Rightarrow> None
         | d # ds \<Rightarrow>
             if d = CHR '']'' then Some (JArr [], ds)
             else
               (case JSONArray n (d # ds) of
                  None \<Rightarrow> None
                | Some (values, r) \<Rightarrow> Some (JArr values, r)))
      else if take 4 (c # cs) = ''null'' then Some (JNull, drop 4 (c # cs))
      else if take 4 (c # cs) = ''true'' then Some (JBool True, drop 4 (c # cs))
      else if take 5 (c # cs) = ''false'' then Some (JBool False, drop 5 (c # cs))
      else
        (case match_integer (c # cs) of
           None \<Rightarrow> None
         | Some (i, r) \<Rightarrow> if float_tail r then None else Some (JInt i, r)))"
| "JSONArray 0 s = None"
| "JSONArray (Suc n) s =
     (case scan_once n s of
        None \<Rightarrow> None
      | Some (v, r) \<Rightarrow>
          (case skip_ws r of
             [] \<Rightarrow> None
           | d # ds \<Rightarrow>
               if d = CHR '']'' then Some ([v], ds)
               else if d = CHR '','' then
                 (case JSONArray n (skip_ws ds) of
                    None \<Rightarrow> None
                  | Some (values, r') \<Rightarrow> Some (v # values, r'))
               else None))"
| "JSONObject 0 s = None"
| "JSONObject (Suc n) [] = None"
| "JSONObject (Suc n) (q # s) =
     (if q \<noteq> quote then None
      else
        (case scanstring s of
           None \<Rightarrow> None
         | Some (k, r) \<Rightarrow>
             (case skip_ws r of
                [] \<Rightarrow> None
              | col # r1 \<Rightarrow>
                  if col \<noteq> CHR '':'' then None
                  else
                    (case scan_once n (skip_ws r1) of
                       None \<Rightarrow> None
                     | Some (v, r2) \<Rightarrow>
                         (case skip_ws r2 of
                            [] \<Rightarrow> None
                          | d # ds \<Rightarrow>
                              if d = CHR ''}'' then Some ([(k, v)], ds)
                              else if d = CHR '','' then
                                (case JSONObject n (skip_ws ds) of
                                   None \<Rightarrow> None
                                 | Some (pairs, r3) \<Rightarrow> Some ((k, v) # pairs, r3))
                              else None)))))"

text \<open>
  \<^verbatim>\<open>json.loads(s)\<close>: leading whitespace, one value, trailing whitespace, the end.
  Each call of the three scanners consumes a character before the next one is made, so
  twice the length of the text is depth enough.
\<close>

definition json_loads :: "string \<Rightarrow> py_exception + json" where
  "json_loads s =
     (case scan_once (2 * length s + 2) (skip_ws s) of
        None \<Rightarrow> Inl JSONDecodeError
      | Some (v, r) \<Rightarrow> if skip_ws r = [] then Inr v else Inl JSONDecodeError)"

subsection \<open>\<^verbatim>\<open>str(uuid.uuid4())\<close>\<close>

text \<open>
  \<^verbatim>\<open>uuid4()\<close> is \<^verbatim>\<open>UUID(bytes=os.urandom(16), version=4)\<close>: the sixteen bytes read
  as one big-endian integer, the variant bits set to \<^verbatim>\<open>10\<close> and the version nibble
  to 4. The bytes are the model's parameter.
\<close>

definition uuid4 :: "128 word \<Rightarrow> 128 word" where
  "uuid4 random_bytes =
     (let i = random_bytes AND NOT (push_bit 48 0xc000);
          i = i OR push_bit 48 0x8000;
          i = i AND NOT (push_bit 64 0xf000);
          i = i OR push_bit 76 4
      in i)"

text \<open>\<^verbatim>\<open>'%032x' % self.int\<close>\<close>

definition hex32 :: "128 word \<Rightarrow> string" where
  "hex32 w = map (\<lambda>k. hexdigit (unat (drop_bit (4 * (31 - k)) w AND 0xf))) [0..<32]"

text \<open>\<^verbatim>\<open>UUID.__str__\<close>: the 32 hex digits in groups of 8, 4, 4, 4 and 12.\<close>

definition str_uuid :: "128 word \<Rightarrow> string" where
  "str_uuid u =
     (let x = hex32 u
      in take 8 x @ ''-'' @ take 4 (drop 8 x) @ ''-'' @ take 4 (drop 12 x) @ ''-''
         @ take 4 (drop 16 x) @ ''-'' @ drop 20 x)"

subsection \<open>\<^verbatim>\<open>datetime.now().isoformat()\<close>\<close>

record datetime =
  year :: nat
  month :: nat
  day :: nat
  hour :: nat
  minute :: nat
  second :: nat
  microsecond :: nat

text \<open>\<^verbatim>\<open>'%0wd' % n\<close>\<close>

definition zero_pad :: "nat \<Rightarrow> nat \<Rightarrow> string" where
  "zero_pad w n = replicate (w - length (str_nat n)) CHR ''0'' @ str_nat n"

text \<open>
  A naive datetime with the default \<^verbatim>\<open>timespec='auto'\<close>: the fraction is printed
  only when the microsecond is not zero.
\<close>

definition isoformat :: "datetime \<Rightarrow> string" where
  "isoformat t =
     zero_pad 4 (year t) @ ''-'' @ zero_pad 2 (month t) @ ''-'' @ zero_pad 2 (day t) @ ''T''
     @ zero_pad 2 (hour t) @ '':'' @ zero_pad 2 (minute t) @ '':'' @ zero_pad 2 (second t)
     @ (if microsecond t \<noteq> 0 then ''.'' @ zero_pad 6 (microsecond t) else [])"

text \<open>
  Naive datetimes compare field by field, from the year to the microsecond. The ranges
  are those the \<^verbatim>\<open>datetime\<close> constructor checks, the day against 31 rather than the
  length of its month.
\<close>

definition datetime_key :: "datetime \<Rightarrow> nat list" where
  "datetime_key t = [year t, month t, day t, hour t, minute t, second t, microsecond t]"

definition valid_datetime :: "datetime \<Rightarrow> bool" where
  "valid_datetime t =
     (1 \<le> year t \<and> year t \<le> 9999 \<and> 1 \<le> month t \<and> month t \<le> 12
      \<and> 1 \<le> day t \<and> day t \<le> 31 \<and> hour t < 24 \<and> minute t < 60 \<and> second t < 60
      \<and> microsecond t < 1000000)"

subsection \<open>The table \<^verbatim>\<open>drawings\<close>\<close>

text \<open>
  One row per drawing, six text columns, \<^verbatim>\<open>id TEXT PRIMARY KEY\<close>. The table is the
  list of its rows in insertion order.
\<close>

record row =
  row_id :: string
  row_name :: string
  row_preview_image :: string
  row_canvas_state :: string
  row_created_at :: string
  row_updated_at :: string

type_synonym db = "row list"

text \<open>\<^verbatim>\<open>INSERT INTO drawings ... VALUES (?, ?, ?, ?, ?, ?)\<close>: the primary key refuses a second
  row with the same id.\<close>

definition sql_insert :: "db \<Rightarrow> row \<Rightarrow> py_exception + db" where
  "sql_insert tbl r =
     (if row_id r \<in> set (map row_id tbl) then Inl IntegrityError else Inr (tbl @ [r]))"

text \<open>\<^verbatim>\<open>SELECT ... FROM drawings WHERE id = ?\<close> and \<^verbatim>\<open>fetchone()\<close>\<close>

definition sql_select_by_id :: "db \<Rightarrow> string \<Rightarrow> row option" where
  "sql_select_by_id tbl i = find (\<lambda>r. row_id r = i) tbl"

text \<open>
  \<^verbatim>\<open>SELECT ... FROM drawings ORDER BY updated_at DESC\<close> and \<^verbatim>\<open>fetchall()\<close>. The
  column holds text, compared byte by byte. SQL leaves the order of rows with equal keys
  open; here they come latest-inserted first.
\<close>

definition sql_select_all :: "db \<Rightarrow> row list" where
  "sql_select_all tbl = rev (sort_key row_updated_at tbl)"

text \<open>The assignments of the \<^verbatim>\<open>SET\<close> clause that \<^verbatim>\<open>update_drawing\<close> builds.\<close>

datatype assignment =
    Set_name string
  | Set_preview_image string
  | Set_canvas_state string
  | Set_updated_at string

fun assign :: "assignment \<Rightarrow> row \<Rightarrow> row" where
  "assign (Set_name v) r = r\<lparr>row_name := v\<rparr>"
| "assign (Set_preview_image v) r = r\<lparr>row_preview_image := v\<rparr>"
| "assign (Set_canvas_state v) r = r\<lparr>row_canvas_state := v\<rparr>"
| "assign (Set_updated_at v) r = r\<lparr>row_updated_at := v\<rparr>"

text \<open>\<^verbatim>\<open>UPDATE drawings SET ... WHERE id = ?\<close>\<close>

definition sql_update :: "db \<Rightarrow> assignment list \<Rightarrow> string \<Rightarrow> db" where
  "sql_update tbl update_fields i =
     map (\<lambda>r. if row_id r = i then fold assign update_fields r else r) tbl"

text \<open>\<^verbatim>\<open>DELETE FROM drawings WHERE id = ?\<close>: the new table and \<^verbatim>\<open>cursor.rowcount\<close>.\<close>

definition sql_delete :: "db \<Rightarrow> string \<Rightarrow> db \<times> nat" where
  "sql_delete tbl i =
     (filter (\<lambda>r. row_id r \<noteq> i) tbl, length (filter (\<lambda>r. row_id r = i) tbl))"

subsection \<open>The pydantic models\<close>

record DrawingCreate =
  c_name :: string
  c_preview_image :: string
  c_canvas_state :: dict

record DrawingUpdate =
  u_name :: "string option"
  u_preview_image :: "string option"
  u_canvas_state :: "dict option"

record DrawingResponse =
  r_id :: string
  r_name :: string
  r_preview_image :: string
  r_canvas_state :: dict
  r_created_at :: string
  r_updated_at :: string

text \<open>
  A field of the body of \<^verbatim>\<open>PUT /drawings/{id}\<close> as it arrives: left out, sent as
  \<^verbatim>\<open>null\<close>, or sent with a value. \<^verbatim>\<open>Optional[T] = None\<close> reads the first two alike.
\<close>

datatype 'a body_field = Omitted | Null | Value 'a

fun optional :: "'a body_field \<Rightarrow> 'a option" where
  "optional Omitted = None"
| "optional Null = None"
| "optional (Value v) = Some v"

definition parse_DrawingUpdate ::
  "string body_field \<Rightarrow> string body_field \<Rightarrow> dict body_field \<Rightarrow> DrawingUpdate" where
  "parse_DrawingUpdate n p c =
     \<lparr>u_name = optional n, u_preview_image = optional p, u_canvas_state = optional c\<rparr>"

text \<open>
  \<^verbatim>\<open>DrawingResponse(id=row[0], ..., canvas_state=json.loads(row[3]), ...)\<close>, as the
  three reading handlers build it: the parse may raise, and the model's validation
  refuses a \<open>canvas_state\<close> that is not a dict.
\<close>

definition response_of_row :: "row \<Rightarrow> py_exception + DrawingResponse" where
  "response_of_row r =
     (case json_loads (row_canvas_state r) of
        Inl e \<Rightarrow> Inl e
      | Inr (JObj d) \<Rightarrow>
          Inr \<lparr>r_id = row_id r, r_name = row_name r, r_preview_image = row_preview_image r,
               r_canvas_state = d, r_created_at = row_created_at r,
               r_updated_at = row_updated_at r\<rparr>
      | Inr _ \<Rightarrow> Inl ValidationError)"

subsection \<open>The handlers\<close>

text \<open>
  Each handler returns the table as it is committed when the handler ends, and either
  the response or the \<^verbatim>\<open>HTTPException\<close> raised.
\<close>

definition internal_error :: "string \<Rightarrow> py_exception \<Rightarrow> http_exception" where
  "internal_error what e = HTTPException 500 (''Failed to '' @ what @ '': '') (Some e)"

definition not_found :: http_exception where
  "not_found = HTTPException 404 ''Drawing not found'' None"

definition create_drawing ::
  "db \<Rightarrow> 128 word \<Rightarrow> datetime \<Rightarrow> DrawingCreate \<Rightarrow> db \<times> (http_exception + DrawingResponse)" where
  "create_drawing tbl random_bytes now drawing =
     (let drawing_id = str_uuid (uuid4 random_bytes);
          current_time = isoformat now
      in case sql_insert tbl
             \<lparr>row_id = drawing_id, row_name = c_name drawing,
              row_preview_image = c_preview_image drawing,
              row_canvas_state = json_dumps (JObj (c_canvas_state drawing)),
              row_created_at = current_time, row_updated_at = current_time\<rparr> of
           Inl e \<Rightarrow> (tbl, Inl (internal_error ''create drawing'' e))
         | Inr tbl' \<Rightarrow>
             (tbl', Inr \<lparr>r_id = drawing_id, r_name = c_name drawing,
                         r_preview_image = c_preview_image drawing,
                         r_canvas_state = c_canvas_state drawing,
                         r_created_at = current_time, r_updated_at = current_time\<rparr>))"

text \<open>The loop of \<^verbatim>\<open>get_drawings\<close> over the fetched rows: the first row that raises ends it.\<close>

fun responses_of_rows :: "row list \<Rightarrow> py_exception + DrawingResponse list" where
  "responses_of_rows [] = Inr []"
| "responses_of_rows (r # rs) =
     (case response_of_row r of
        Inl e \<Rightarrow> Inl e
      | Inr d \<Rightarrow>
          (case responses_of_rows rs of
             Inl e \<Rightarrow> Inl e
           | Inr ds \<Rightarrow> Inr (d # ds)))"

definition get_drawings :: "db \<Rightarrow> db \<times> (http_exception + DrawingResponse list)" where
  "get_drawings tbl =
     (case responses_of_rows (sql_select_all tbl) of
        Inl e \<Rightarrow> (tbl, Inl (internal_error ''get drawings'' e))
      | Inr drawings \<Rightarrow> (tbl, Inr drawings))"

definition get_drawing :: "db \<Rightarrow> string \<Rightarrow> db \<times> (http_exception + DrawingResponse)" where
  "get_drawing tbl drawing_id =
     (case sql_select_by_id tbl drawing_id of
        None \<Rightarrow> (tbl, Inl not_found)
      | Some r \<Rightarrow>
          (case response_of_row r of
             Inl e \<Rightarrow> (tbl, Inl (internal_error ''get drawing'' e))
           | Inr d \<Rightarrow> (tbl, Inr d)))"

text \<open>
  The \<^verbatim>\<open>update_fields\<close> list of \<^verbatim>\<open>update_drawing\<close> before the timestamp is appended:
  one assignment per field that \<^verbatim>\<open>is not None\<close>.
\<close>

definition update_fields :: "DrawingUpdate \<Rightarrow> assignment list" where
  "update_fields drawing =
     (case u_name drawing of None \<Rightarrow> [] | Some v \<Rightarrow> [Set_name v])
     @ (case u_preview_image drawing of None \<Rightarrow> [] | Some v \<Rightarrow> [Set_preview_image v])
     @ (case u_canvas_state drawing of None \<Rightarrow> [] | Some d \<Rightarrow> [Set_canvas_state (json_dumps (JObj d))])"

text \<open>
  The write is committed before the response is built, so a failure in building the
  response leaves the updated table behind. \<^verbatim>\<open>row[0]\<close> on a missing row is a
  \<^verbatim>\<open>TypeError\<close>.
\<close>

definition update_drawing ::
  "db \<Rightarrow> datetime \<Rightarrow> string \<Rightarrow> DrawingUpdate \<Rightarrow> db \<times> (http_exception + DrawingResponse)" where
  "update_drawing tbl now drawing_id drawing =
     (if sql_select_by_id tbl drawing_id = None then (tbl, Inl not_found)
      else if update_fields drawing = [] then
        (tbl, Inl (HTTPException 400 ''No fields to update'' None))
      else
        (let current_time = isoformat now;
             tbl' = sql_update tbl (update_fields drawing @ [Set_updated_at current_time]) drawing_id
         in case sql_select_by_id tbl' drawing_id of
              None \<Rightarrow> (tbl', Inl (internal_error ''update drawing'' TypeError))
            | Some r \<Rightarrow>
                (case response_of_row r of
                   Inl e \<Rightarrow> (tbl', Inl (internal_error ''update drawing'' e))
                 | Inr d \<Rightarrow> (tbl', Inr d))))"

definition delete_drawing :: "db \<Rightarrow> string \<Rightarrow> db \<times> (http_exception + string)" where
  "delete_drawing tbl drawing_id =
     (case sql_delete tbl drawing_id of
        (tbl', rowcount) \<Rightarrow>
          if rowcount = 0 then (tbl, Inl not_found)
          else (tbl', Inr ''Drawing deleted successfully''))"

subsection \<open>Sequences of requests\<close>

text \<open>
  A request with what its handler reads from the environment. A request body is a
  decoded JSON object, so its \<open>canvas_state\<close> is a dict.
\<close>

datatype request =
    POST_drawings "128 word" datetime DrawingCreate
  | GET_drawings
  | GET_drawing string
  | PUT_drawing datetime string DrawingUpdate
  | DELETE_drawing string

fun valid_request :: "request \<Rightarrow> bool" where
  "valid_request (POST_drawings rb now d) = python_value (JObj (c_canvas_state d))"
| "valid_request (PUT_drawing now i d) =
     (case u_canvas_state d of None \<Rightarrow> True | Some c \<Rightarrow> python_value (JObj c))"
| "valid_request _ = True"

fun serve :: "db \<Rightarrow> request \<Rightarrow> db" where
  "serve tbl (POST_drawings rb now d) = fst (create_drawing tbl rb now d)"
| "serve tbl GET_drawings = fst (get_drawings tbl)"
| "serve tbl (GET_drawing i) = fst (get_drawing tbl i)"
| "serve tbl (PUT_drawing now i d) = fst (update_drawing tbl now i d)"
| "serve tbl (DELETE_drawing i) = fst (delete_drawing tbl i)"

text \<open>The table after a sequence of requests, starting from the empty one of \<^verbatim>\<open>init_db\<close>.\<close>

definition serve_all :: "request list \<Rightarrow> db" where
  "serve_all reqs = foldl serve [] reqs"

subsection \<open>Notions used in the proofs\<close>

text \<open>
  What may follow a value in the text \<open>json_dumps\<close> writes: the end, or the delimiter of
  the enclosing array or object.
\<close>

definition boundary :: "string \<Rightarrow> bool" where
  "boundary rest = (case rest of [] \<Rightarrow> True | c # _ \<Rightarrow> c = CHR '','' \<or> c = CHR '']'' \<or> c = CHR ''}'')"

text \<open>A text whose first character is neither whitespace nor a closing bracket.\<close>

definition starts_value :: "string \<Rightarrow> bool" where
  "starts_value s = (case s of [] \<Rightarrow> False | c # _ \<Rightarrow> \<not> is_ws c \<and> c \<noteq> CHR '']'')"

text \<open>One \<^verbatim>\<open>"key": value\<close> member as \<open>json_dumps\<close> writes it.\<close>

definition member_text :: "string \<times> json \<Rightarrow> string" where
  "member_text kv = encode_basestring_ascii (fst kv) @ '': '' @ json_dumps (snd kv)"

text \<open>A row whose \<open>canvas_state\<close> column the reading handlers can turn into a response.\<close>

definition readable :: "row \<Rightarrow> bool" where
  "readable r = (case response_of_row r of Inl e \<Rightarrow> False | Inr d \<Rightarrow> True)"

text \<open>The response the reading handlers build from a row and its parsed \<open>canvas_state\<close>.\<close>

definition response :: "row \<Rightarrow> dict \<Rightarrow> DrawingResponse" where
  "response r d =
     \<lparr>r_id = row_id r, r_name = row_name r, r_preview_image = row_preview_image r,
      r_canvas_state = d, r_created_at = row_created_at r, r_updated_at = row_updated_at r\<rparr>"

text \<open>
  A row whose \<open>canvas_state\<close> column is the text \<open>json_dumps\<close> writes for the dict it
  parses to.
\<close>

definition serialized :: "row \<Rightarrow> bool" where
  "serialized r =
     (case json_loads (row_canvas_state r) of
        Inr (JObj d) \<Rightarrow> python_value (JObj d) \<and> row_canvas_state r = json_dumps (JObj d)
      | _ \<Rightarrow> False)"

text \<open>The clock readings a sequence of requests takes, in order.\<close>

fun clock_readings :: "request list \<Rightarrow> datetime list" where
  "clock_readings [] = []"
| "clock_readings (POST_drawings rb now d # reqs) = now # clock_readings reqs"
| "clock_readings (PUT_drawing now i d # reqs) = now # clock_readings reqs"
| "clock_readings (_ # reqs) = clock_readings reqs"

text \<open>A request that supplies no empty name.\<close>

fun names_nonempty :: "request \<Rightarrow> bool" where
  "names_nonempty (POST_drawings rb now d) = (c_name d \<noteq> [])"
| "names_nonempty (PUT_drawing now i d) = (u_name d \<noteq> Some [])"
| "names_nonempty _ = True"

subsection \<open>Example data\<close>

text \<open>The nested document of the specification's round-trip property.\<close>

definition example_doc :: dict where
  "example_doc =
     [(''shapes'',
       JArr [JObj [(''type'', JStr ''circle''), (''r'', JInt 5)],
             JObj [(''type'', JStr ''line''),
                   (''points'', JArr [JArr [JInt 0, JInt 0], JArr [JInt 1, JInt 1]])]])]"

definition example_time :: datetime where
  "example_time =
     \<lparr>year = 2024, month = 5, day = 1, hour = 10, minute = 0, second = 0, microsecond = 0\<rparr>"

definition later_time :: datetime where
  "later_time =
     \<lparr>year = 2024, month = 5, day = 1, hour = 10, minute = 0, second = 7, microsecond = 1203\<rparr>"

definition example_row :: row where
  "example_row =
     \<lparr>row_id = ''d1'', row_name = ''sketch'', row_preview_image = ''iVBORw0KGgo='',
      row_canvas_state = ''{}'', row_created_at = ''2024-05-01T10:00:00'',
      row_updated_at = ''2024-05-01T10:00:00''\<rparr>"

definition no_fields :: DrawingUpdate where
  "no_fields = \<lparr>u_name = None, u_preview_image = None, u_canvas_state = None\<rparr>"

text \<open>A create request, and the row and the response it gives at \<open>example_time\<close>.\<close>

definition example_create :: DrawingCreate where
  "example_create =
     \<lparr>c_name = ''sketch'', c_preview_image = ''iVBORw0KGgo='', c_canvas_state = example_doc\<rparr>"

definition example_id :: string where
  "example_id = ''00000000-0000-4000-8000-000000000005''"

definition stored_example :: row where
  "stored_example =
     \<lparr>row_id = example_id, row_name = ''sketch'', row_preview_image = ''iVBORw0KGgo='',
      row_canvas_state = json_dumps (JObj example_doc),
      row_created_at = ''2024-05-01T10:00:00'', row_updated_at = ''2024-05-01T10:00:00''\<rparr>"

definition example_response :: DrawingResponse where
  "example_response =
     \<lparr>r_id = example_id, r_name = ''sketch'', r_preview_image = ''iVBORw0KGgo='',
      r_canvas_state = example_doc,
      r_created_at = ''2024-05-01T10:00:00'', r_updated_at = ''2024-05-01T10:00:00''\<rparr>"

text \<open>The same create request once more, at \<open>later_time\<close> and with other random bytes.\<close>

definition second_row :: row where
  "second_row =
     \<lparr>row_id = ''00000000-0000-4000-8000-000000000006'', row_name = ''sketch'',
      row_preview_image = ''iVBORw0KGgo='', row_canvas_state = json_dumps (JObj example_doc),
      row_created_at = ''2024-05-01T10:00:07.001203'',
      row_updated_at = ''2024-05-01T10:00:07.001203''\<rparr>"

definition second_response :: DrawingResponse where
  "second_response =
     \<lparr>r_id = ''00000000-0000-4000-8000-000000000006'', r_name = ''sketch'',
      r_preview_image = ''iVBORw0KGgo='', r_canvas_state = example_doc,
      r_created_at = ''2024-05-01T10:00:07.001203'',
      r_updated_at = ''2024-05-01T10:00:07.001203''\<rparr>"

text \<open>An update that renames, and what it leaves of \<open>stored_example\<close> at \<open>later_time\<close>.\<close>

definition rename_only :: DrawingUpdate where
  "rename_only = \<lparr>u_name = Some ''X'', u_preview_image = None, u_canvas_state = None\<rparr>"

definition renamed_row :: row where
  "renamed_row =
     stored_example\<lparr>row_name := ''X'', row_updated_at := ''2024-05-01T10:00:07.001203''\<rparr>"

definition renamed_response :: DrawingResponse where
  "renamed_response =
     example_response\<lparr>r_name := ''X'', r_updated_at := ''2024-05-01T10:00:07.001203''\<rparr>"

definition example_requests :: "request list" where
  "example_requests =
     [POST_drawings 5 example_time example_create,
      PUT_drawing later_time example_id rename_only]"

section \<open>Properties\<close>

subsection \<open>\<open>json_loads\<close> reads back what \<open>json_dumps\<close> writes\<close>

declare str_nat.simps [simp del]

lemma is_digit_char_of: "(n::nat) < 10 \<Longrightarrow> is_digit (char_of (48 + n))"
  by (simp add: is_digit_def)

lemma digit_value_char_of: "(n::nat) < 10 \<Longrightarrow> (of_char (char_of (48 + n) :: char) :: nat) - 48 = n"
  by simp

lemma str_nat_digits: "list_all is_digit (str_nat n)"
proof (induction n rule: str_nat.induct)
  case (1 n)
  show ?case
  proof (cases "n < 10")
    case True
    then show ?thesis by (subst str_nat.simps) (simp add: is_digit_char_of)
  next
    case False
    have "n mod 10 < 10" by simp
    then have "is_digit (char_of (48 + n mod 10))" by (rule is_digit_char_of)
    with False 1 show ?thesis by (subst str_nat.simps) simp
  qed
qed

lemma str_nat_not_Nil: "str_nat n \<noteq> []"
  by (subst str_nat.simps) simp

lemma nat_of_digits_snoc:
  "nat_of_digits (ds @ [c]) = 10 * nat_of_digits ds + (of_char c - 48)"
  by (simp add: nat_of_digits_def)

lemma nat_of_digits_str_nat: "nat_of_digits (str_nat n) = n"
proof (induction n rule: str_nat.induct)
  case (1 n)
  show ?case
  proof (cases "n < 10")
    case True
    then show ?thesis by (subst str_nat.simps) (simp add: nat_of_digits_def)
  next
    case False
    have m: "n mod 10 < 10" by simp
    have "nat_of_digits (str_nat n) = 10 * nat_of_digits (str_nat (n div 10)) + n mod 10"
      using False by (subst str_nat.simps) (simp add: nat_of_digits_snoc digit_value_char_of [OF m] del: of_char_of)
    with False 1 show ?thesis by simp
  qed
qed

lemma hd_str_nat: "0 < n \<Longrightarrow> hd (str_nat n) \<noteq> CHR ''0''"
proof (induction n rule: str_nat.induct)
  case (1 n)
  show ?case
  proof (cases "n < 10")
    case True
    have "char_of (48 + n) = CHR ''0'' \<Longrightarrow> False"
    proof -
      assume "char_of (48 + n) = CHR ''0''"
      then have "(of_char (char_of (48 + n) :: char) :: nat) = of_char CHR ''0''" by simp
      with True \<open>0 < n\<close> show False by simp
    qed
    with True show ?thesis by (subst str_nat.simps) auto
  next
    case False
    then have "0 < n div 10" by simp
    with 1 False have "hd (str_nat (n div 10)) \<noteq> CHR ''0''" by simp
    with False show ?thesis by (subst str_nat.simps) (simp add: str_nat_not_Nil)
  qed
qed

lemma boundary_not_digit: "boundary rest \<Longrightarrow> takeWhile is_digit rest = [] \<and> dropWhile is_digit rest = rest"
  by (cases rest) (auto simp: boundary_def is_digit_def)

lemma boundary_not_float: "boundary rest \<Longrightarrow> \<not> float_tail rest"
  by (cases rest rule: float_tail.cases) (auto simp: boundary_def)

lemma takeWhile_all: "list_all P xs \<Longrightarrow> takeWhile P (xs @ ys) = xs @ takeWhile P ys"
  by (induction xs) auto

lemma dropWhile_all: "list_all P xs \<Longrightarrow> dropWhile P (xs @ ys) = dropWhile P ys"
  by (induction xs) auto

lemma match_magnitude_str_nat:
  assumes "boundary rest"
  shows "match_magnitude (str_nat n @ rest) = Some (n, rest)"
proof (cases "n = 0")
  case True
  have "char_of (48::nat) = CHR ''0''" by code_simp
  then have "str_nat 0 = ''0''" by (subst str_nat.simps) simp
  with True show ?thesis by simp
next
  case False
  obtain c cs where s: "str_nat n = c # cs" using str_nat_not_Nil [of n] by (cases "str_nat n") auto
  have d: "list_all is_digit (c # cs)" using str_nat_digits [of n] s by simp
  have z: "c \<noteq> CHR ''0''" using hd_str_nat [of n] False s by simp
  have v: "nat_of_digits (c # cs) = n" using nat_of_digits_str_nat [of n] s by simp
  from d have dc: "is_digit c" and dcs: "list_all is_digit cs" by simp_all
  show ?thesis
    using z dc v boundary_not_digit [OF assms]
    by (simp add: s takeWhile_all [OF dcs] dropWhile_all [OF dcs])
qed

lemma hd_str_nat_digit: "is_digit (hd (str_nat n))"
  using str_nat_digits [of n] str_nat_not_Nil [of n] by (cases "str_nat n") auto

lemma match_integer_str_int:
  assumes "boundary rest"
  shows "match_integer (str_int i @ rest) = Some (i, rest)"
proof (cases "i < 0")
  case True
  then show ?thesis
    by (simp add: str_int_def match_magnitude_str_nat [OF assms])
next
  case False
  obtain c cs where s: "str_nat (nat i) = c # cs"
    using str_nat_not_Nil [of "nat i"] by (cases "str_nat (nat i)") auto
  have "is_digit c" using hd_str_nat_digit [of "nat i"] s by simp
  then have m: "c \<noteq> CHR ''-''" by (auto simp: is_digit_def)
  have "match_magnitude (c # cs @ rest) = Some (nat i, rest)"
    using match_magnitude_str_nat [OF assms, of "nat i"] s by simp
  with False m show ?thesis by (simp add: str_int_def s)
qed


lemma hex_val_hexdigit: "d < 16 \<Longrightarrow> hex_val (hexdigit d) = Some d"
  by (auto simp: hex_val_def hexdigit_def Let_def)

lemma hex4_value:
  fixes n :: nat
  assumes "n < 256"
  shows "4096 * (n div 4096 mod 16) + 256 * (n div 256 mod 16) + 16 * (n div 16 mod 16) + n mod 16 = n"
  using assms by simp

lemma decode_hex4_hex4: "n < 256 \<Longrightarrow> decode_hex4 (hex4 n) = Some n"
  using hex4_value [of n] by (simp add: hex4_def hex_val_hexdigit)


lemma scanstring_escape_char:
  assumes "scanstring rest = Some (t, r)"
  shows "scanstring (escape_char c @ rest) = Some (c # t, r)"
proof -
  consider (short) "c = quote \<or> c = backslash \<or> c = CHR 0x0A \<or> c = CHR 0x0D \<or> c = CHR 0x09
      \<or> c = CHR 0x08 \<or> c = CHR 0x0C"
    | (plain) "c \<noteq> quote" "c \<noteq> backslash" "0x20 \<le> (of_char c :: nat)" "(of_char c :: nat) \<le> 0x7E"
    | (hex) "c \<noteq> quote" "c \<noteq> backslash" "c \<noteq> CHR 0x0A" "c \<noteq> CHR 0x0D" "c \<noteq> CHR 0x09"
        "c \<noteq> CHR 0x08" "c \<noteq> CHR 0x0C" "\<not> (0x20 \<le> (of_char c :: nat) \<and> (of_char c :: nat) \<le> 0x7E)"
    by blast
  then show ?thesis
  proof cases
    case short
    then show ?thesis using assms by (auto simp: escape_char_def unescape_def)
  next
    case plain
    then have "escape_char c = [c]" by (auto simp: escape_char_def)
    with plain assms show ?thesis by simp
  next
    case hex
    then have e: "escape_char c = backslash # CHR ''u'' # hex4 (of_char c)"
      by (simp add: escape_char_def)
    have l: "length (hex4 (of_char c)) = 4" by (simp add: hex4_def)
    have d: "decode_hex4 (hex4 (of_char c)) = Some (of_char c)"
      by (rule decode_hex4_hex4) simp
    show ?thesis using assms by (simp add: e l d)
  qed
qed

lemma scanstring_escaped:
  "scanstring (concat (map escape_char s) @ quote # rest) = Some (s, rest)"
  by (induction s) (simp_all add: scanstring_escape_char)


lemma alist_update_fresh: "k \<notin> fst ` set d \<Longrightarrow> AList.update k v d = d @ [(k, v)]"
  by (induction d) auto

lemma py_dict_foldl:
  "distinct (map fst (d @ pairs)) \<Longrightarrow>
   foldl (\<lambda>d kv. AList.update (fst kv) (snd kv) d) d pairs = d @ pairs"
proof (induction pairs arbitrary: d)
  case Nil
  then show ?case by simp
next
  case (Cons kv pairs)
  from Cons.prems have f: "fst kv \<notin> fst ` set d" by auto
  from Cons.prems have "distinct (map fst ((d @ [kv]) @ pairs))" by simp
  from Cons.IH [OF this] show ?case by (simp add: alist_update_fresh [OF f])
qed

lemma py_dict_distinct: "distinct (map fst pairs) \<Longrightarrow> py_dict pairs = pairs"
  using py_dict_foldl [of "[]" pairs] by (simp add: py_dict_def)

lemma starts_value_append: "starts_value s \<Longrightarrow> starts_value (s @ t)"
  by (cases s) (simp_all add: starts_value_def)

lemma skip_ws_starts_value: "starts_value s \<Longrightarrow> skip_ws s = s"
  by (cases s) (simp_all add: starts_value_def skip_ws_def)

lemma starts_value_str_int: "starts_value (str_int i)"
proof -
  obtain c cs where s: "str_nat (nat \<bar>i\<bar>) = c # cs"
    using str_nat_not_Nil [of "nat \<bar>i\<bar>"] by (cases "str_nat (nat \<bar>i\<bar>)") auto
  have "is_digit c" using hd_str_nat_digit [of "nat \<bar>i\<bar>"] s by simp
  then have "\<not> is_ws c \<and> c \<noteq> CHR '']''" by (auto simp: is_digit_def is_ws_def)
  then show ?thesis
    using s by (cases "i < 0") (simp_all add: str_int_def starts_value_def is_ws_def abs_if)
qed

lemma starts_value_json_dumps: "starts_value (json_dumps v)"
proof (cases v)
  case (JInt i)
  then show ?thesis by (simp add: starts_value_str_int)
qed (simp_all add: starts_value_def is_ws_def encode_basestring_ascii_def)

lemma skip_ws_json_dumps: "skip_ws (json_dumps v @ t) = json_dumps v @ t"
  by (rule skip_ws_starts_value [OF starts_value_append [OF starts_value_json_dumps]])

lemma skip_ws_space_json_dumps: "skip_ws (CHR '' '' # json_dumps v @ t) = json_dumps v @ t"
  using skip_ws_json_dumps [of v t] by (simp add: skip_ws_def is_ws_def)


lemma scan_once_string:
  "scan_once (Suc n) (quote # cs) =
     (case scanstring cs of None \<Rightarrow> None | Some (t, r) \<Rightarrow> Some (JStr t, r))"
  by simp

lemma scan_once_number:
  assumes "is_digit c \<or> c = CHR ''-''"
  shows "scan_once (Suc n) (c # cs) =
     (case match_integer (c # cs) of
        None \<Rightarrow> None
      | Some (i, r) \<Rightarrow> if float_tail r then None else Some (JInt i, r))"
proof -
  from assms have "c \<noteq> quote" "c \<noteq> CHR ''{''" "c \<noteq> CHR ''[''" "c \<noteq> CHR ''n''" "c \<noteq> CHR ''t''" "c \<noteq> CHR ''f''"
    by (auto simp: is_digit_def)
  then show ?thesis by (simp del: match_integer.simps)
qed


lemma boundary_simps:
  "boundary []" "boundary (CHR '','' # t)" "boundary (CHR '']'' # t)" "boundary (CHR ''}'' # t)"
  by (simp_all add: boundary_def)

lemma skip_ws_delimiter:
  "skip_ws (CHR '','' # t) = CHR '','' # t"
  "skip_ws (CHR '']'' # t) = CHR '']'' # t"
  "skip_ws (CHR ''}'' # t) = CHR ''}'' # t"
  "skip_ws (CHR '':'' # t) = CHR '':'' # t"
  "skip_ws (quote # t) = quote # t"
  by (simp_all add: skip_ws_def is_ws_def)

lemma JSONArray_items:
  assumes "\<And>x n rest. x \<in> set vs \<Longrightarrow> boundary rest \<Longrightarrow> 2 * length (json_dumps x) \<le> n \<Longrightarrow>
             scan_once n (json_dumps x @ rest) = Some (x, rest)"
    and "vs \<noteq> []"
    and "2 * length (join_comma (map json_dumps vs)) < n"
  shows "JSONArray n (join_comma (map json_dumps vs) @ CHR '']'' # rest) = Some (vs, rest)"
  using assms
proof (induction vs arbitrary: n)
  case Nil
  then show ?case by simp
next
  case (Cons v vs)
  from Cons.prems(3) obtain m where n: "n = Suc m" by (cases n) auto
  have elem: "\<And>rest. boundary rest \<Longrightarrow> 2 * length (json_dumps v) \<le> m \<Longrightarrow>
                scan_once m (json_dumps v @ rest) = Some (v, rest)"
    by (rule Cons.prems(1)) simp_all
  show ?case
  proof (cases vs)
    case Nil
    have b: "2 * length (json_dumps v) \<le> m" using Cons.prems(3) n Nil by simp
    have "scan_once m (json_dumps v @ CHR '']'' # rest) = Some (v, CHR '']'' # rest)"
      by (rule elem [OF _ b]) (simp add: boundary_simps)
    then show ?thesis by (simp add: n Nil skip_ws_delimiter)
  next
    case (Cons w ws)
    let ?more = "join_comma (map json_dumps (w # ws))"
    have j: "join_comma (map json_dumps (v # w # ws)) = json_dumps v @ CHR '','' # CHR '' '' # ?more"
      by simp
    have len: "length (join_comma (map json_dumps (v # w # ws))) = length (json_dumps v) + 2 + length ?more"
      by (simp add: j del: join_comma.simps list.map)
    have b: "2 * length (json_dumps v) \<le> m" and b': "2 * length ?more < m"
      using Cons.prems(3) n len unfolding Cons by linarith+
    have 1: "scan_once m (json_dumps v @ CHR '','' # CHR '' '' # ?more @ CHR '']'' # rest)
               = Some (v, CHR '','' # CHR '' '' # ?more @ CHR '']'' # rest)"
      by (rule elem [OF _ b]) (simp add: boundary_simps)
    have s: "skip_ws (CHR '' '' # ?more @ CHR '']'' # rest) = ?more @ CHR '']'' # rest"
    proof (cases ws)
      case Nil
      then show ?thesis using skip_ws_space_json_dumps [of w "CHR '']'' # rest"] by simp
    next
      case (Cons a as)
      then show ?thesis
        using skip_ws_space_json_dumps [of w "'', '' @ join_comma (map json_dumps (a # as)) @ CHR '']'' # rest"]
        by simp
    qed
    have 2: "JSONArray m (?more @ CHR '']'' # rest) = Some (w # ws, rest)"
    proof (rule Cons.IH [unfolded \<open>vs = w # ws\<close>])
      show "w # ws \<noteq> []" by simp
      show "2 * length ?more < m" by (rule b')
      show "\<And>x n rest. x \<in> set (w # ws) \<Longrightarrow> boundary rest \<Longrightarrow> 2 * length (json_dumps x) \<le> n \<Longrightarrow>
             scan_once n (json_dumps x @ rest) = Some (x, rest)"
        using Cons.prems(1) \<open>vs = w # ws\<close> by simp
    qed
    have "JSONArray (Suc m) ((json_dumps v @ CHR '','' # CHR '' '' # ?more) @ CHR '']'' # rest)
            = Some (v # w # ws, rest)"
      by (simp add: 1 s 2 skip_ws_delimiter del: join_comma.simps list.map)
    then show ?thesis by (simp only: n j \<open>vs = w # ws\<close>)
  qed
qed


lemma json_dumps_JObj:
  "json_dumps (JObj ms) = CHR ''{'' # join_comma (map member_text ms) @ ''}''"
proof -
  have "(\<lambda>kv. encode_basestring_ascii (fst kv) @ '': '' @ json_dumps (snd kv)) = member_text"
    by (rule ext) (simp add: member_text_def)
  then show ?thesis by simp
qed

lemma member_text_unfold:
  "member_text (k, v) @ t
     = quote # concat (map escape_char k) @ quote # CHR '':'' # CHR '' '' # json_dumps v @ t"
  by (simp add: member_text_def encode_basestring_ascii_def)

lemma length_member_text: "2 * length (json_dumps (snd kv)) < 2 * length (member_text kv)"
  by (simp add: member_text_def)

lemma JSONObject_member:
  assumes "scan_once m (json_dumps v @ t) = Some (v, t)"
  shows "JSONObject (Suc m) (member_text (k, v) @ t) =
     (case skip_ws t of
        [] \<Rightarrow> None
      | d # ds \<Rightarrow>
          if d = CHR ''}'' then Some ([(k, v)], ds)
          else if d = CHR '','' then
            (case JSONObject m (skip_ws ds) of
               None \<Rightarrow> None
             | Some (pairs, r3) \<Rightarrow> Some ((k, v) # pairs, r3))
          else None)"
  by (simp add: member_text_unfold scanstring_escaped skip_ws_delimiter
      skip_ws_space_json_dumps assms)

lemma JSONObject_members:
  assumes "\<And>k x n rest. (k, x) \<in> set ms \<Longrightarrow> boundary rest \<Longrightarrow> 2 * length (json_dumps x) \<le> n \<Longrightarrow>
             scan_once n (json_dumps x @ rest) = Some (x, rest)"
    and "ms \<noteq> []"
    and "2 * length (join_comma (map member_text ms)) < n"
  shows "JSONObject n (join_comma (map member_text ms) @ CHR ''}'' # rest) = Some (ms, rest)"
  using assms
proof (induction ms arbitrary: n)
  case Nil
  then show ?case by simp
next
  case (Cons kv ms)
  obtain k v where kv: "kv = (k, v)" by (cases kv)
  from Cons.prems(3) obtain m where n: "n = Suc m" by (cases n) auto
  have elem: "\<And>rest. boundary rest \<Longrightarrow> 2 * length (json_dumps v) \<le> m \<Longrightarrow>
                scan_once m (json_dumps v @ rest) = Some (v, rest)"
    by (rule Cons.prems(1) [of k]) (simp_all add: kv)
  show ?case
  proof (cases ms)
    case Nil
    have b: "2 * length (json_dumps v) \<le> m"
      using Cons.prems(3) n Nil length_member_text [of kv] by (simp add: kv)
    have "scan_once m (json_dumps v @ CHR ''}'' # rest) = Some (v, CHR ''}'' # rest)"
      by (rule elem [OF _ b]) (simp add: boundary_simps)
    from JSONObject_member [OF this, of k]
    show ?thesis by (simp add: n Nil kv skip_ws_delimiter)
  next
    case (Cons kw ws)
    let ?more = "join_comma (map member_text (kw # ws))"
    have j: "join_comma (map member_text (kv # kw # ws)) = member_text kv @ CHR '','' # CHR '' '' # ?more"
      by simp
    have len: "length (join_comma (map member_text (kv # kw # ws))) = length (member_text kv) + 2 + length ?more"
      by (simp add: j del: join_comma.simps list.map)
    have b: "2 * length (json_dumps v) \<le> m" and b': "2 * length ?more < m"
      using Cons.prems(3) n len length_member_text [of kv] unfolding Cons kv by simp_all
    have 1: "scan_once m (json_dumps v @ CHR '','' # CHR '' '' # ?more @ CHR ''}'' # rest)
               = Some (v, CHR '','' # CHR '' '' # ?more @ CHR ''}'' # rest)"
      by (rule elem [OF _ b]) (simp add: boundary_simps)
    have s: "skip_ws (CHR '' '' # ?more @ CHR ''}'' # rest) = ?more @ CHR ''}'' # rest"
    proof -
      obtain t where "?more @ CHR ''}'' # rest = quote # t"
        by (cases ws) (simp_all add: member_text_def encode_basestring_ascii_def)
      then show ?thesis by (simp add: skip_ws_def is_ws_def del: join_comma.simps list.map)
    qed
    have 2: "JSONObject m (?more @ CHR ''}'' # rest) = Some (kw # ws, rest)"
    proof (rule Cons.IH [unfolded \<open>ms = kw # ws\<close>])
      show "kw # ws \<noteq> []" by simp
      show "2 * length ?more < m" by (rule b')
      fix k x n rest
      assume "(k, x) \<in> set (kw # ws)" and br: "boundary rest"
        and le: "2 * length (json_dumps x) \<le> n"
      then have "(k, x) \<in> set (kv # ms)" by (simp add: \<open>ms = kw # ws\<close>)
      then show "scan_once n (json_dumps x @ rest) = Some (x, rest)"
        using br le by (rule Cons.prems(1))
    qed
    have "JSONObject (Suc m) (member_text (k, v) @ CHR '','' # CHR '' '' # ?more @ CHR ''}'' # rest)
            = Some ((k, v) # kw # ws, rest)"
      by (simp add: JSONObject_member [OF 1] s 2 skip_ws_delimiter del: join_comma.simps list.map)
    then have "JSONObject (Suc m) ((member_text kv @ CHR '','' # CHR '' '' # ?more) @ CHR ''}'' # rest)
            = Some (kv # kw # ws, rest)"
      by (simp add: kv del: join_comma.simps list.map)
    then show ?thesis by (simp only: n j Cons)
  qed
qed


lemma depth_positive:
  assumes "2 * length (json_dumps v) \<le> n"
  obtains m where "n = Suc m"
proof -
  have "json_dumps v \<noteq> []"
    using starts_value_json_dumps [of v] by (auto simp: starts_value_def)
  with assms have "0 < n" by (cases "json_dumps v") auto
  then show thesis using that by (cases n) auto
qed

lemma scan_once_json_dumps:
  "python_value v \<Longrightarrow> boundary rest \<Longrightarrow> 2 * length (json_dumps v) \<le> n \<Longrightarrow>
   scan_once n (json_dumps v @ rest) = Some (v, rest)"
proof (induction v arbitrary: n rest)
  case JNull
  from JNull(3) obtain m where "n = Suc m" by (rule depth_positive)
  then show ?case by simp
next
  case (JBool b)
  from JBool(3) obtain m where "n = Suc m" by (rule depth_positive)
  then show ?case by (cases b) simp_all
next
  case (JInt i)
  from JInt(3) obtain m where n: "n = Suc m" by (rule depth_positive)
  obtain c cs where s: "str_int i = c # cs"
    using starts_value_str_int [of i] by (cases "str_int i") (auto simp: starts_value_def)
  have d: "is_digit c \<or> c = CHR ''-''"
    using s hd_str_nat_digit [of "nat i"] by (cases "i < 0") (auto simp: str_int_def)
  have m: "match_integer (c # cs @ rest) = Some (i, rest)"
    using match_integer_str_int [OF JInt.prems(2), of i] s by simp
  show ?case
    using scan_once_number [OF d, of m "cs @ rest"] boundary_not_float [OF JInt.prems(2)]
    by (simp add: n s m del: scan_once.simps match_integer.simps)
next
  case (JStr t)
  from JStr(3) obtain m where n: "n = Suc m" by (rule depth_positive)
  show ?case
    by (simp add: n encode_basestring_ascii_def scanstring_escaped)
next
  case (JArr vs)
  from JArr.prems(3) obtain m where n: "n = Suc m" by (rule depth_positive)
  show ?case
  proof (cases vs)
    case Nil
    then show ?thesis by (simp add: n skip_ws_delimiter)
  next
    case (Cons w ws)
    let ?items = "join_comma (map json_dumps vs)"
    have b: "2 * length ?items < m" using JArr.prems(3) n by simp
    have elems: "\<And>x n rest. x \<in> set vs \<Longrightarrow> boundary rest \<Longrightarrow> 2 * length (json_dumps x) \<le> n \<Longrightarrow>
             scan_once n (json_dumps x @ rest) = Some (x, rest)"
      using JArr.IH JArr.prems(1) by (simp add: list_all_iff)
    have loop: "JSONArray m (?items @ CHR '']'' # rest) = Some (vs, rest)"
      by (rule JSONArray_items [OF elems _ b]) (simp_all add: Cons)
    have st: "starts_value (?items @ CHR '']'' # rest)"
      using starts_value_json_dumps [of w]
      by (cases ws) (simp_all add: Cons starts_value_append)
    then obtain d ds where dd: "?items @ CHR '']'' # rest = d # ds" and nd: "d \<noteq> CHR '']''"
      by (cases "?items @ CHR '']'' # rest") (auto simp: starts_value_def)
    have sk: "skip_ws (?items @ CHR '']'' # rest) = d # ds"
      using skip_ws_starts_value [OF st] dd by simp
    have "scan_once (Suc m) (CHR ''['' # ?items @ CHR '']'' # rest) = Some (JArr vs, rest)"
      using loop nd by (simp add: sk) (simp add: dd [symmetric])
    then show ?thesis by (simp add: n)
  qed
next
  case (JObj ms)
  from JObj.prems(3) obtain m where n: "n = Suc m" by (rule depth_positive)
  show ?case
  proof (cases ms)
    case Nil
    then show ?thesis by (simp add: n skip_ws_delimiter)
  next
    case (Cons kw ws)
    let ?items = "join_comma (map member_text ms)"
    have b: "2 * length ?items < m"
      using JObj.prems(3) n by (simp add: json_dumps_JObj del: json_dumps.simps)
    have elems: "\<And>k x n rest. (k, x) \<in> set ms \<Longrightarrow> boundary rest \<Longrightarrow> 2 * length (json_dumps x) \<le> n \<Longrightarrow>
             scan_once n (json_dumps x @ rest) = Some (x, rest)"
    proof -
      fix k x n rest
      assume in_ms: "(k, x) \<in> set ms" and br: "boundary rest"
        and le: "2 * length (json_dumps x) \<le> n"
      have "python_value x" using JObj.prems(1) in_ms by (auto simp: list_all_iff)
      moreover have "x \<in> Basic_BNFs.snds (k, x)" by simp
      ultimately show "scan_once n (json_dumps x @ rest) = Some (x, rest)"
        using JObj.IH [OF in_ms] br le by blast
    qed
    have loop: "JSONObject m (?items @ CHR ''}'' # rest) = Some (ms, rest)"
      by (rule JSONObject_members [OF elems _ b]) (simp_all add: Cons)
    obtain ds where dd: "?items @ CHR ''}'' # rest = quote # ds"
      by (cases ws) (simp_all add: Cons member_text_def encode_basestring_ascii_def)
    have sk: "skip_ws (?items @ CHR ''}'' # rest) = quote # ds"
      by (simp add: dd skip_ws_delimiter)
    have di: "py_dict ms = ms" using JObj.prems(1) by (simp add: py_dict_distinct)
    have "scan_once (Suc m) (CHR ''{'' # ?items @ CHR ''}'' # rest) = Some (JObj ms, rest)"
      using loop by (simp add: sk) (simp add: dd [symmetric] di)
    then show ?thesis by (simp add: n json_dumps_JObj del: json_dumps.simps)
  qed
qed

lemma json_loads_json_dumps: "python_value v \<Longrightarrow> json_loads (json_dumps v) = Inr v"
proof -
  assume v: "python_value v"
  have "scan_once (2 * length (json_dumps v) + 2) (json_dumps v @ []) = Some (v, [])"
    by (rule scan_once_json_dumps [OF v]) (simp_all add: boundary_simps)
  moreover have "skip_ws (json_dumps v) = json_dumps v"
    using skip_ws_json_dumps [of v "[]"] by simp
  ultimately show ?thesis by (simp add: json_loads_def skip_ws_def)
qed

subsection \<open>Lookups in the table\<close>

lemma select_None_iff: "sql_select_by_id tbl i = None \<longleftrightarrow> i \<notin> row_id ` set tbl"
  by (auto simp: sql_select_by_id_def find_None_iff)


lemma update_fields_empty_iff:
  "update_fields d = [] \<longleftrightarrow> u_name d = None \<and> u_preview_image d = None \<and> u_canvas_state d = None"
  by (simp add: update_fields_def split: option.splits)

lemma delete_absent: "i \<notin> row_id ` set tbl \<Longrightarrow> delete_drawing tbl i = (tbl, Inl not_found)"
  by (auto simp: delete_drawing_def sql_delete_def filter_empty_conv)

lemma delete_present:
  "i \<in> row_id ` set tbl \<Longrightarrow>
   delete_drawing tbl i = (filter (\<lambda>r. row_id r \<noteq> i) tbl, Inr ''Drawing deleted successfully'')"
  by (auto simp: delete_drawing_def sql_delete_def filter_empty_conv)

subsection \<open>Creating and updating\<close>


lemma response_of_row_cases:
  "response_of_row r = Inr resp \<longleftrightarrow>
   (\<exists>d. json_loads (row_canvas_state r) = Inr (JObj d) \<and> resp = response r d)"
  by (auto simp: response_of_row_def response_def split: sum.splits json.splits)


lemma create_drawing_cases:
  "create_drawing tbl rb now d = (tbl', Inr resp) \<longleftrightarrow>
     str_uuid (uuid4 rb) \<notin> row_id ` set tbl
     \<and> tbl' = tbl @ [\<lparr>row_id = str_uuid (uuid4 rb), row_name = c_name d,
              row_preview_image = c_preview_image d,
              row_canvas_state = json_dumps (JObj (c_canvas_state d)),
              row_created_at = isoformat now, row_updated_at = isoformat now\<rparr>]
     \<and> resp = \<lparr>r_id = str_uuid (uuid4 rb), r_name = c_name d,
                r_preview_image = c_preview_image d, r_canvas_state = c_canvas_state d,
                r_created_at = isoformat now, r_updated_at = isoformat now\<rparr>"
  by (auto simp: create_drawing_def sql_insert_def Let_def simp del: json_dumps.simps)



lemma row_id_assign: "row_id (fold assign fs r) = row_id r"
proof (induction fs arbitrary: r)
  case Nil
  then show ?case by simp
next
  case (Cons f fs)
  then show ?case by (cases f) simp_all
qed

lemma select_sql_update:
  "sql_select_by_id (sql_update tbl fs i) i = map_option (fold assign fs) (sql_select_by_id tbl i)"
  by (induction tbl) (simp_all add: sql_select_by_id_def sql_update_def row_id_assign)

lemma sql_update_others:
  "filter (\<lambda>r. row_id r \<noteq> i) (sql_update tbl fs i) = filter (\<lambda>r. row_id r \<noteq> i) tbl"
  by (induction tbl) (simp_all add: sql_update_def row_id_assign)

lemma ids_sql_update: "map row_id (sql_update tbl fs i) = map row_id tbl"
  by (simp add: sql_update_def row_id_assign)

text \<open>The row that the assignments of a request and the timestamp leave.\<close>

lemma assign_update_fields:
  "fold assign (update_fields d @ [Set_updated_at t]) r =
     r\<lparr>row_name := (case u_name d of None \<Rightarrow> row_name r | Some v \<Rightarrow> v),
       row_preview_image := (case u_preview_image d of None \<Rightarrow> row_preview_image r | Some v \<Rightarrow> v),
       row_canvas_state :=
         (case u_canvas_state d of None \<Rightarrow> row_canvas_state r | Some c \<Rightarrow> json_dumps (JObj c)),
       row_updated_at := t\<rparr>"
  by (simp add: update_fields_def split: option.splits del: json_dumps.simps)

lemma update_drawing_result:
  assumes "get_drawing tbl i = (tbl, Inr old)"
    and "update_fields d \<noteq> []"
    and "case u_canvas_state d of None \<Rightarrow> True | Some c \<Rightarrow> python_value (JObj c)"
  shows "\<exists>tbl' new.
           update_drawing tbl now i d = (tbl', Inr new)
           \<and> get_drawing tbl' i = (tbl', Inr new)
           \<and> r_id new = r_id old
           \<and> r_name new = (case u_name d of None \<Rightarrow> r_name old | Some v \<Rightarrow> v)
           \<and> r_preview_image new =
               (case u_preview_image d of None \<Rightarrow> r_preview_image old | Some v \<Rightarrow> v)
           \<and> r_canvas_state new =
               (case u_canvas_state d of None \<Rightarrow> r_canvas_state old | Some c \<Rightarrow> c)
           \<and> r_created_at new = r_created_at old
           \<and> r_updated_at new = isoformat now
           \<and> filter (\<lambda>r. row_id r \<noteq> i) tbl' = filter (\<lambda>r. row_id r \<noteq> i) tbl
           \<and> map row_id tbl' = map row_id tbl"
proof -
  from assms(1) obtain r where sel: "sql_select_by_id tbl i = Some r"
    and old: "response_of_row r = Inr old"
    by (auto simp: get_drawing_def split: option.splits sum.splits)
  from old obtain c0 where c0: "json_loads (row_canvas_state r) = Inr (JObj c0)"
    and old_eq: "old = response r c0"
    by (auto simp: response_of_row_cases)
  let ?fs = "update_fields d @ [Set_updated_at (isoformat now)]"
  let ?tbl = "sql_update tbl ?fs i"
  define r' where "r' = fold assign ?fs r"
  let ?c = "case u_canvas_state d of None \<Rightarrow> c0 | Some c \<Rightarrow> c"
  have fields:
    "row_id r' = row_id r"
    "row_name r' = (case u_name d of None \<Rightarrow> row_name r | Some v \<Rightarrow> v)"
    "row_preview_image r' = (case u_preview_image d of None \<Rightarrow> row_preview_image r | Some v \<Rightarrow> v)"
    "row_canvas_state r' =
       (case u_canvas_state d of None \<Rightarrow> row_canvas_state r | Some c \<Rightarrow> json_dumps (JObj c))"
    "row_created_at r' = row_created_at r"
    "row_updated_at r' = isoformat now"
    unfolding r'_def assign_update_fields by simp_all
  have sel': "sql_select_by_id ?tbl i = Some r'"
    unfolding r'_def by (simp only: select_sql_update sel option.map)
  have parse: "json_loads (row_canvas_state r') = Inr (JObj ?c)"
  proof (cases "u_canvas_state d")
    case None
    then show ?thesis by (simp add: fields c0)
  next
    case (Some c)
    with assms(3) have "python_value (JObj c)" by simp
    from json_loads_json_dumps [OF this] Some show ?thesis
      by (simp add: fields del: json_dumps.simps)
  qed
  have new: "response_of_row r' = Inr (response r' ?c)"
    using parse by (simp add: response_of_row_cases)
  have upd: "update_drawing tbl now i d = (?tbl, Inr (response r' ?c))"
    using assms(2) by (simp add: update_drawing_def sel Let_def sel' new)
  have get: "get_drawing ?tbl i = (?tbl, Inr (response r' ?c))"
    by (simp add: get_drawing_def sel' new)
  have "r_id (response r' ?c) = r_id old"
    and "r_name (response r' ?c) = (case u_name d of None \<Rightarrow> r_name old | Some v \<Rightarrow> v)"
    and "r_preview_image (response r' ?c) =
           (case u_preview_image d of None \<Rightarrow> r_preview_image old | Some v \<Rightarrow> v)"
    and "r_canvas_state (response r' ?c) =
           (case u_canvas_state d of None \<Rightarrow> r_canvas_state old | Some c \<Rightarrow> c)"
    and "r_created_at (response r' ?c) = r_created_at old"
    and "r_updated_at (response r' ?c) = isoformat now"
    by (simp_all add: response_def old_eq fields split: option.splits)
  with upd get sql_update_others [of i tbl ?fs] ids_sql_update [of tbl ?fs i]
  show ?thesis by blast
qed


lemma serialized_iff:
  "serialized r \<longleftrightarrow> (\<exists>d. python_value (JObj d) \<and> row_canvas_state r = json_dumps (JObj d))"
proof
  assume "serialized r"
  then show "\<exists>d. python_value (JObj d) \<and> row_canvas_state r = json_dumps (JObj d)"
    by (auto simp: serialized_def split: sum.splits json.splits simp del: json_dumps.simps python_value.simps)
next
  assume "\<exists>d. python_value (JObj d) \<and> row_canvas_state r = json_dumps (JObj d)"
  then obtain d where d: "python_value (JObj d)" and c: "row_canvas_state r = json_dumps (JObj d)"
    by blast
  from json_loads_json_dumps [OF d] show "serialized r"
    by (simp add: serialized_def c d del: json_dumps.simps python_value.simps)
qed

lemma serialized_readable: "serialized r \<Longrightarrow> readable r"
  by (auto simp: serialized_def readable_def response_of_row_def split: sum.splits json.splits)

lemma readable_iff: "readable r \<longleftrightarrow> (\<exists>resp. response_of_row r = Inr resp)"
  by (simp add: readable_def split: sum.splits)

subsection \<open>The table each handler leaves\<close>

lemma fst_create_drawing:
  "fst (create_drawing tbl rb now d) =
     (if str_uuid (uuid4 rb) \<in> row_id ` set tbl then tbl
      else tbl @ [\<lparr>row_id = str_uuid (uuid4 rb), row_name = c_name d,
              row_preview_image = c_preview_image d,
              row_canvas_state = json_dumps (JObj (c_canvas_state d)),
              row_created_at = isoformat now, row_updated_at = isoformat now\<rparr>])"
  by (simp add: create_drawing_def sql_insert_def Let_def del: json_dumps.simps)

lemma fst_update_drawing:
  "fst (update_drawing tbl now i d) =
     (if i \<notin> row_id ` set tbl \<or> update_fields d = [] then tbl
      else sql_update tbl (update_fields d @ [Set_updated_at (isoformat now)]) i)"
  by (auto simp: update_drawing_def Let_def select_None_iff split: option.splits sum.splits)

lemma fst_delete_drawing: "fst (delete_drawing tbl i) = filter (\<lambda>r. row_id r \<noteq> i) tbl"
proof (cases "i \<in> row_id ` set tbl")
  case True
  then show ?thesis by (simp add: delete_present)
next
  case False
  then have "filter (\<lambda>r. row_id r \<noteq> i) tbl = tbl" by (auto simp: filter_id_conv)
  with False show ?thesis by (simp add: delete_absent)
qed

lemma fst_get_drawing: "fst (get_drawing tbl i) = tbl"
  by (simp add: get_drawing_def split: option.splits sum.splits)

lemma fst_get_drawings: "fst (get_drawings tbl) = tbl"
  by (simp add: get_drawings_def split: sum.splits)

lemma updated_row:
  "r \<in> set (sql_update tbl (update_fields d @ [Set_updated_at t]) i) \<Longrightarrow>
   r \<in> set tbl \<or>
   (\<exists>r0 \<in> set tbl. row_id r0 = i \<and>
      r = r0\<lparr>row_name := (case u_name d of None \<Rightarrow> row_name r0 | Some v \<Rightarrow> v),
              row_preview_image :=
                (case u_preview_image d of None \<Rightarrow> row_preview_image r0 | Some v \<Rightarrow> v),
              row_canvas_state :=
                (case u_canvas_state d of None \<Rightarrow> row_canvas_state r0
                 | Some c \<Rightarrow> json_dumps (JObj c)),
              row_updated_at := t\<rparr>)"
  unfolding sql_update_def assign_update_fields by auto

text \<open>
  A property of rows that the new row of a create has, that the assignments of an update
  keep, and that holds of the rows of the table, holds of the rows after the request.
\<close>

lemma serve_rows:
  assumes "\<forall>r \<in> set tbl. P r"
    and "\<And>rb now d. req = POST_drawings rb now d \<Longrightarrow>
           P \<lparr>row_id = str_uuid (uuid4 rb), row_name = c_name d,
              row_preview_image = c_preview_image d,
              row_canvas_state = json_dumps (JObj (c_canvas_state d)),
              row_created_at = isoformat now, row_updated_at = isoformat now\<rparr>"
    and "\<And>now i d r0. req = PUT_drawing now i d \<Longrightarrow> r0 \<in> set tbl \<Longrightarrow> P r0 \<Longrightarrow>
           P (r0\<lparr>row_name := (case u_name d of None \<Rightarrow> row_name r0 | Some v \<Rightarrow> v),
              row_preview_image :=
                (case u_preview_image d of None \<Rightarrow> row_preview_image r0 | Some v \<Rightarrow> v),
              row_canvas_state :=
                (case u_canvas_state d of None \<Rightarrow> row_canvas_state r0
                 | Some c \<Rightarrow> json_dumps (JObj c)),
              row_updated_at := isoformat now\<rparr>)"
  shows "\<forall>r \<in> set (serve tbl req). P r"
proof (cases req)
  case (POST_drawings rb now d)
  with assms(1) assms(2) [OF POST_drawings] show ?thesis
    by (auto simp: fst_create_drawing simp del: json_dumps.simps)
next
  case GET_drawings
  with assms(1) show ?thesis by (simp add: fst_get_drawings)
next
  case (GET_drawing i)
  with assms(1) show ?thesis by (simp add: fst_get_drawing)
next
  case (PUT_drawing now i d)
  show ?thesis
  proof
    fix r assume "r \<in> set (serve tbl req)"
    then have "r \<in> set tbl \<or> r \<in> set (sql_update tbl (update_fields d @ [Set_updated_at (isoformat now)]) i)"
      by (simp add: PUT_drawing fst_update_drawing split: if_splits)
    then show "P r"
      using assms(1) assms(3) [OF PUT_drawing] updated_row [of r tbl d "isoformat now" i]
      by blast
  qed
next
  case (DELETE_drawing i)
  with assms(1) show ?thesis by (simp add: fst_delete_drawing)
qed

lemma serve_serialized:
  assumes "valid_request req" and "\<forall>r \<in> set tbl. serialized r"
  shows "\<forall>r \<in> set (serve tbl req). serialized r"
proof (rule serve_rows [OF assms(2)])
  fix rb now d assume "req = POST_drawings rb now d"
  with assms(1) have "python_value (JObj (c_canvas_state d))" by simp
  then show "serialized \<lparr>row_id = str_uuid (uuid4 rb), row_name = c_name d,
              row_preview_image = c_preview_image d,
              row_canvas_state = json_dumps (JObj (c_canvas_state d)),
              row_created_at = isoformat now, row_updated_at = isoformat now\<rparr>"
    unfolding serialized_iff by (intro exI [of _ "c_canvas_state d"]) simp
next
  fix now i d r0 assume req: "req = PUT_drawing now i d" and "r0 \<in> set tbl" and s: "serialized r0"
  show "serialized (r0\<lparr>row_name := (case u_name d of None \<Rightarrow> row_name r0 | Some v \<Rightarrow> v),
              row_preview_image :=
                (case u_preview_image d of None \<Rightarrow> row_preview_image r0 | Some v \<Rightarrow> v),
              row_canvas_state :=
                (case u_canvas_state d of None \<Rightarrow> row_canvas_state r0
                 | Some c \<Rightarrow> json_dumps (JObj c)),
              row_updated_at := isoformat now\<rparr>)"
  proof (cases "u_canvas_state d")
    case None
    from s obtain c0 where "python_value (JObj c0)" and "row_canvas_state r0 = json_dumps (JObj c0)"
      unfolding serialized_iff by blast
    then show ?thesis unfolding serialized_iff using None by (intro exI [of _ c0]) simp
  next
    case (Some c)
    with assms(1) req have "python_value (JObj c)" by simp
    then show ?thesis unfolding serialized_iff using Some by (intro exI [of _ c]) simp
  qed
qed

lemma foldl_serve_serialized:
  "list_all valid_request reqs \<Longrightarrow> \<forall>r \<in> set tbl. serialized r \<Longrightarrow>
   \<forall>r \<in> set (foldl serve tbl reqs). serialized r"
proof (induction reqs arbitrary: tbl)
  case Nil
  then show ?case by simp
next
  case (Cons req reqs)
  from Cons.prems have "\<forall>r \<in> set (serve tbl req). serialized r"
    by (intro serve_serialized) simp_all
  with Cons show ?case by simp
qed

lemma serve_all_serialized:
  "list_all valid_request reqs \<Longrightarrow> \<forall>r \<in> set (serve_all reqs). serialized r"
  unfolding serve_all_def by (rule foldl_serve_serialized) simp_all


subsection \<open>Listing\<close>

lemma responses_of_rows_readable:
  "list_all readable rows \<Longrightarrow>
   \<exists>ds. responses_of_rows rows = Inr ds \<and> map Inr ds = map response_of_row rows"
proof (induction rows)
  case Nil
  then show ?case by simp
next
  case (Cons r rows)
  then obtain ds where ds: "responses_of_rows rows = Inr ds"
    and m: "map Inr ds = map response_of_row rows" by auto
  from Cons.prems obtain d where d: "response_of_row r = Inr d"
    by (auto simp: readable_iff)
  show ?case
    by (rule exI [of _ "d # ds"]) (simp add: ds d m)
qed

lemma response_columns:
  "map Inr ds = map response_of_row rows \<Longrightarrow>
   map r_updated_at ds = map row_updated_at rows \<and> map r_id ds = map row_id rows"
proof (induction rows arbitrary: ds)
  case Nil
  then show ?case by simp
next
  case (Cons r rows)
  then obtain d ds' where ds: "ds = d # ds'" by (cases ds) auto
  with Cons.prems have "response_of_row r = Inr d" and "map Inr ds' = map response_of_row rows"
    by simp_all
  with Cons.IH [of ds'] show ?case
    by (auto simp: ds response_of_row_cases response_def)
qed

lemma mset_sql_select_all: "mset (sql_select_all tbl) = mset tbl"
  by (simp add: sql_select_all_def)

lemma sql_select_all_descending: "sorted (rev (map row_updated_at (sql_select_all tbl)))"
  by (simp add: sql_select_all_def rev_map [symmetric])

lemma get_drawings_result:
  assumes "list_all readable tbl"
  shows "\<exists>ds rows. get_drawings tbl = (tbl, Inr ds)
           \<and> mset rows = mset tbl
           \<and> map response_of_row rows = map Inr ds
           \<and> map r_id ds = map row_id rows
           \<and> sorted (rev (map r_updated_at ds))"
proof -
  let ?rows = "sql_select_all tbl"
  have "set ?rows = set tbl" using mset_sql_select_all [of tbl] by (rule mset_eq_setD)
  with assms have "list_all readable ?rows" by (simp add: list_all_iff)
  from responses_of_rows_readable [OF this] obtain ds
    where ds: "responses_of_rows ?rows = Inr ds" and m: "map Inr ds = map response_of_row ?rows"
    by blast
  from response_columns [OF m] sql_select_all_descending [of tbl]
  have "sorted (rev (map r_updated_at ds))" and "map r_id ds = map row_id ?rows" by simp_all
  moreover have "get_drawings tbl = (tbl, Inr ds)" by (simp add: get_drawings_def ds)
  ultimately show ?thesis using mset_sql_select_all [of tbl] m [symmetric] by blast
qed


subsection \<open>Invariants of the table over a sequence of requests\<close>

lemma clock_readings_Cons:
  "set (clock_readings reqs) \<subseteq> set (clock_readings (req # reqs))"
  "sorted (map isoformat (clock_readings (req # reqs))) \<Longrightarrow>
   sorted (map isoformat (clock_readings reqs))"
  by (cases req; auto)+

lemma foldl_serve_timestamps:
  assumes "sorted (map isoformat (clock_readings reqs))"
    and "\<forall>r \<in> set tbl. row_created_at r \<le> row_updated_at r
           \<and> (\<forall>t \<in> set (clock_readings reqs). row_created_at r \<le> isoformat t)"
  shows "\<forall>r \<in> set (foldl serve tbl reqs). row_created_at r \<le> row_updated_at r"
  using assms
proof (induction reqs arbitrary: tbl)
  case Nil
  then show ?case by simp
next
  case (Cons req reqs)
  let ?P = "\<lambda>r. row_created_at r \<le> row_updated_at r
           \<and> (\<forall>t \<in> set (clock_readings reqs). row_created_at r \<le> isoformat t)"
  have old: "\<forall>r \<in> set tbl. ?P r"
    using Cons.prems(2) clock_readings_Cons(1) [of reqs req] by blast
  have "\<forall>r \<in> set (serve tbl req). ?P r"
  proof (rule serve_rows [OF old])
    fix rb now d assume "req = POST_drawings rb now d"
    with Cons.prems(1) have "\<forall>t \<in> set (clock_readings reqs). isoformat now \<le> isoformat t"
      by auto
    then show "?P \<lparr>row_id = str_uuid (uuid4 rb), row_name = c_name d,
              row_preview_image = c_preview_image d,
              row_canvas_state = json_dumps (JObj (c_canvas_state d)),
              row_created_at = isoformat now, row_updated_at = isoformat now\<rparr>"
      by simp
  next
    fix now i d r0 assume req: "req = PUT_drawing now i d" and r0: "r0 \<in> set tbl" and "?P r0"
    from Cons.prems(2) r0 req have "row_created_at r0 \<le> isoformat now" by simp
    with \<open>?P r0\<close>
    show "?P (r0\<lparr>row_name := (case u_name d of None \<Rightarrow> row_name r0 | Some v \<Rightarrow> v),
              row_preview_image :=
                (case u_preview_image d of None \<Rightarrow> row_preview_image r0 | Some v \<Rightarrow> v),
              row_canvas_state :=
                (case u_canvas_state d of None \<Rightarrow> row_canvas_state r0
                 | Some c \<Rightarrow> json_dumps (JObj c)),
              row_updated_at := isoformat now\<rparr>)"
      by simp
  qed
  from Cons.IH [OF clock_readings_Cons(2) [OF Cons.prems(1)] this] show ?case by simp
qed

lemma foldl_serve_names:
  "list_all names_nonempty reqs \<Longrightarrow> \<forall>r \<in> set tbl. row_name r \<noteq> [] \<Longrightarrow>
   \<forall>r \<in> set (foldl serve tbl reqs). row_name r \<noteq> []"
proof (induction reqs arbitrary: tbl)
  case Nil
  then show ?case by simp
next
  case (Cons req reqs)
  have "\<forall>r \<in> set (serve tbl req). row_name r \<noteq> []"
  proof (rule serve_rows [OF Cons.prems(2)])
    fix rb now d assume "req = POST_drawings rb now d"
    with Cons.prems(1) show "row_name \<lparr>row_id = str_uuid (uuid4 rb), row_name = c_name d,
              row_preview_image = c_preview_image d,
              row_canvas_state = json_dumps (JObj (c_canvas_state d)),
              row_created_at = isoformat now, row_updated_at = isoformat now\<rparr> \<noteq> []"
      by simp
  next
    fix now i d r0 assume "req = PUT_drawing now i d" and "r0 \<in> set tbl" and "row_name r0 \<noteq> []"
    with Cons.prems(1)
    show "row_name (r0\<lparr>row_name := (case u_name d of None \<Rightarrow> row_name r0 | Some v \<Rightarrow> v),
              row_preview_image :=
                (case u_preview_image d of None \<Rightarrow> row_preview_image r0 | Some v \<Rightarrow> v),
              row_canvas_state :=
                (case u_canvas_state d of None \<Rightarrow> row_canvas_state r0
                 | Some c \<Rightarrow> json_dumps (JObj c)),
              row_updated_at := isoformat now\<rparr>) \<noteq> []"
      by (cases "u_name d") auto
  qed
  with Cons show ?case by simp
qed

subsection \<open>The id\<close>












subsection \<open>\<open>isoformat\<close> keeps the order of clock readings\<close>

lemma length_str_nat: "0 < w \<Longrightarrow> n < 10 ^ w \<Longrightarrow> length (str_nat n) \<le> w"
proof (induction n arbitrary: w rule: str_nat.induct)
  case (1 n)
  show ?case
  proof (cases "n < 10")
    case True
    with 1(2) show ?thesis by (subst str_nat.simps) simp
  next
    case False
    from 1(2) obtain v where w: "w = Suc v" by (cases w) auto
    from False 1(3) w have "0 < v" by (cases v) auto
    moreover from 1(3) w have "n div 10 < 10 ^ v" by (simp add: less_mult_imp_div_less mult.commute)
    ultimately have "length (str_nat (n div 10)) \<le> v" using 1(1) False by simp
    with False w show ?thesis by (subst str_nat.simps) simp
  qed
qed

lemma length_zero_pad: "0 < w \<Longrightarrow> n < 10 ^ w \<Longrightarrow> length (zero_pad w n) = w"
  using length_str_nat [of w n] by (simp add: zero_pad_def)

lemma zero_pad_Suc:
  assumes "0 < w" and "n < 10 ^ Suc w"
  shows "zero_pad (Suc w) n = zero_pad w (n div 10) @ [char_of (48 + n mod 10)]"
proof (cases "n < 10")
  case True
  have z: "str_nat 0 = [char_of (48 :: nat)]" by (subst str_nat.simps) simp
  from True have s: "str_nat n = [char_of (48 + n)]" by (subst str_nat.simps) simp
  from assms(1) obtain v where w: "w = Suc v" by (cases w) auto
  have c0: "char_of (48 :: nat) = CHR ''0''" by code_simp
  have "replicate w CHR ''0'' = replicate v CHR ''0'' @ [char_of (48 :: nat)]"
    unfolding w c0 by (simp add: replicate_append_same)
  with True show ?thesis by (simp add: zero_pad_def s z w)
next
  case False
  then have s: "str_nat n = str_nat (n div 10) @ [char_of (48 + n mod 10)]"
    by (subst str_nat.simps) simp
  from assms have "n div 10 < 10 ^ w" by (simp add: less_mult_imp_div_less mult.commute)
  from length_str_nat [OF assms(1) this] show ?thesis
    by (simp add: zero_pad_def s Suc_diff_le)
qed


lemma append_less_left:
  fixes xs ys :: "'a::linorder list"
  shows "length xs = length ys \<Longrightarrow> xs < ys \<Longrightarrow> xs @ us < ys @ vs"
  by (induction xs ys rule: list_induct2) auto

lemma append_le_same:
  fixes us vs :: "'a::linorder list"
  shows "us \<le> vs \<Longrightarrow> xs @ us \<le> xs @ vs"
  by (induction xs) auto

lemma append_less_same:
  fixes us vs :: "'a::linorder list"
  shows "us < vs \<Longrightarrow> xs @ us < xs @ vs"
  by (induction xs) auto

lemma block_le:
  fixes xs ys :: "'a::linorder list"
  assumes "length xs = length ys" and "xs < ys \<or> (xs = ys \<and> us \<le> vs)"
  shows "xs @ us \<le> ys @ vs"
  using assms append_less_left [of xs ys us vs] append_le_same [of us vs xs]
  by (auto simp: less_imp_le)

lemma digit_less: "(a::nat) < b \<Longrightarrow> b < 10 \<Longrightarrow> (char_of (48 + a) :: char) < char_of (48 + b)"
  by (simp add: less_char_def)

lemma zero_pad_one: "n < 10 \<Longrightarrow> zero_pad (Suc 0) n = [char_of (48 + n)]"
  by (subst zero_pad_def, subst (1 2) str_nat.simps) simp

lemma zero_pad_less:
  "0 < w \<Longrightarrow> m < n \<Longrightarrow> n < 10 ^ w \<Longrightarrow> zero_pad w m < zero_pad w n"
proof (induction w arbitrary: m n)
  case 0
  then show ?case by simp
next
  case (Suc v)
  show ?case
  proof (cases "v = 0")
    case True
    with Suc.prems show ?thesis by (simp add: zero_pad_one digit_less)
  next
    case False
    then have v: "0 < v" by simp
    from Suc.prems have m: "m < 10 ^ Suc v" by simp
    have dn: "n div 10 < 10 ^ v" and dm: "m div 10 < 10 ^ v"
      using Suc.prems(3) m by (simp_all add: less_mult_imp_div_less mult.commute)
    have len: "length (zero_pad v (m div 10)) = length (zero_pad v (n div 10))"
      by (simp add: length_zero_pad [OF v] dn dm)
    from Suc.prems(2) consider "m div 10 < n div 10" | "m div 10 = n div 10" "m mod 10 < n mod 10"
      by (metis div_le_mono le_neq_implies_less less_imp_le mod_div_decomp nat_add_left_cancel_less)
    then show ?thesis
    proof cases
      case 1
      from Suc.IH [OF v 1 dn] show ?thesis
        unfolding zero_pad_Suc [OF v m] zero_pad_Suc [OF v Suc.prems(3)]
        by (rule append_less_left [OF len])
    next
      case 2
      have "(char_of (48 + m mod 10) :: char) < char_of (48 + n mod 10)"
        by (rule digit_less [OF 2(2)]) simp
      then have "[char_of (48 + m mod 10) :: char] < [char_of (48 + n mod 10)]" by simp
      then show ?thesis
        unfolding zero_pad_Suc [OF v m] zero_pad_Suc [OF v Suc.prems(3)] 2(1)
        by (rule append_less_same)
    qed
  qed
qed


lemma field_le:
  assumes "0 < w" and "m < 10 ^ w" and "n < 10 ^ w"
    and "m # ks \<le> n # ls"
    and "ks \<le> ls \<Longrightarrow> us \<le> vs"
  shows "zero_pad w m @ c # us \<le> zero_pad w n @ c # vs"
proof (rule block_le)
  show "length (zero_pad w m) = length (zero_pad w n)"
    by (simp add: length_zero_pad assms(1-3))
  from assms(4) consider "m < n" | "m = n" "ks \<le> ls" by auto
  then show "zero_pad w m < zero_pad w n \<or> zero_pad w m = zero_pad w n \<and> c # us \<le> c # vs"
  proof cases
    case 1
    then show ?thesis using zero_pad_less [OF assms(1) _ assms(3)] by simp
  next
    case 2
    with assms(5) show ?thesis by simp
  qed
qed

lemma fraction_le:
  assumes "a < 10 ^ 6" and "b < 10 ^ 6" and "[a] \<le> [b]"
  shows "(if a \<noteq> 0 then ''.'' @ zero_pad 6 a else []) \<le> (if b \<noteq> 0 then ''.'' @ zero_pad 6 b else [])"
proof (cases "a = 0")
  case True
  then show ?thesis by simp
next
  case False
  with assms(3) have "b \<noteq> 0" and "a < b \<or> a = b" by auto
  with False zero_pad_less [of 6 a b] assms(2) show ?thesis by (auto simp: less_imp_le)
qed

lemma seconds_le:
  assumes "s < 10 ^ 2" and "s' < 10 ^ 2" and "a < 10 ^ 6" and "b < 10 ^ 6"
    and "[s, a] \<le> [s', b]"
  shows "zero_pad 2 s @ (if a \<noteq> 0 then ''.'' @ zero_pad 6 a else [])
       \<le> zero_pad 2 s' @ (if b \<noteq> 0 then ''.'' @ zero_pad 6 b else [])"
proof (rule block_le)
  show "length (zero_pad 2 s) = length (zero_pad 2 s')"
    using length_zero_pad [OF _ assms(1)] length_zero_pad [OF _ assms(2)] by simp
  from assms(5) consider "s < s'" | "s = s'" "[a] \<le> [b]" by auto
  then show "zero_pad 2 s < zero_pad 2 s' \<or> zero_pad 2 s = zero_pad 2 s' \<and>
    (if a \<noteq> 0 then ''.'' @ zero_pad 6 a else []) \<le> (if b \<noteq> 0 then ''.'' @ zero_pad 6 b else [])"
  proof cases
    case 1
    then show ?thesis using zero_pad_less [of 2 s s'] assms(2) by simp
  next
    case 2
    with fraction_le [OF assms(3,4)] show ?thesis by simp
  qed
qed

lemma isoformat_mono:
  assumes "valid_datetime a" and "valid_datetime b" and "datetime_key a \<le> datetime_key b"
  shows "isoformat a \<le> isoformat b"
proof -
  from assms(1) have a: "year a < 10 ^ 4" "month a < 10 ^ 2" "day a < 10 ^ 2" "hour a < 10 ^ 2"
    "minute a < 10 ^ 2" "second a < 10 ^ 2" "microsecond a < 10 ^ 6"
    by (simp_all add: valid_datetime_def)
  from assms(2) have b: "year b < 10 ^ 4" "month b < 10 ^ 2" "day b < 10 ^ 2" "hour b < 10 ^ 2"
    "minute b < 10 ^ 2" "second b < 10 ^ 2" "microsecond b < 10 ^ 6"
    by (simp_all add: valid_datetime_def)
  let ?f = "\<lambda>t. if microsecond t \<noteq> 0 then ''.'' @ zero_pad 6 (microsecond t) else []"
  let ?s = "\<lambda>t. zero_pad 2 (second t) @ ?f t"
  let ?mi = "\<lambda>t. zero_pad 2 (minute t) @ CHR '':'' # ?s t"
  let ?h = "\<lambda>t. zero_pad 2 (hour t) @ CHR '':'' # ?mi t"
  let ?d = "\<lambda>t. zero_pad 2 (day t) @ CHR ''T'' # ?h t"
  let ?mo = "\<lambda>t. zero_pad 2 (month t) @ CHR ''-'' # ?d t"
  let ?y = "\<lambda>t. zero_pad 4 (year t) @ CHR ''-'' # ?mo t"
  have s: "?s a \<le> ?s b" if "[second a, microsecond a] \<le> [second b, microsecond b]"
    using that by (rule seconds_le [OF a(6) b(6) a(7) b(7)])
  have mi: "?mi a \<le> ?mi b"
    if k: "[minute a, second a, microsecond a] \<le> [minute b, second b, microsecond b]"
    by (rule field_le [OF _ a(5) b(5) k s]) simp
  have h: "?h a \<le> ?h b"
    if k: "[hour a, minute a, second a, microsecond a] \<le> [hour b, minute b, second b, microsecond b]"
    by (rule field_le [OF _ a(4) b(4) k mi]) simp
  have d: "?d a \<le> ?d b"
    if k: "[day a, hour a, minute a, second a, microsecond a]
      \<le> [day b, hour b, minute b, second b, microsecond b]"
    by (rule field_le [OF _ a(3) b(3) k h]) simp
  have mo: "?mo a \<le> ?mo b"
    if k: "[month a, day a, hour a, minute a, second a, microsecond a]
      \<le> [month b, day b, hour b, minute b, second b, microsecond b]"
    by (rule field_le [OF _ a(2) b(2) k d]) simp
  have "?y a \<le> ?y b"
    by (rule field_le [OF _ a(1) b(1) assms(3) [unfolded datetime_key_def] mo]) simp
  then show ?thesis by (simp add: isoformat_def)
qed

lemma isoformat_sorted:
  "list_all valid_datetime ts \<Longrightarrow> sorted (map datetime_key ts) \<Longrightarrow> sorted (map isoformat ts)"
  by (induction ts) (auto simp: list_all_iff isoformat_mono)

subsection \<open>Claims about the error paths\<close>

text \<open>
  C3. On an existing record, an update request with none of its three fields present is
  answered with status 400, and the table, with the record's row and its
  \<open>updated_at\<close>, is the one before the call.
\<close>

theorem update_without_fields_rejected:
  assumes "sql_select_by_id tbl i = Some r"
    and "u_name d = None" and "u_preview_image d = None" and "u_canvas_state d = None"
  shows "update_drawing tbl now i d = (tbl, Inl (HTTPException 400 ''No fields to update'' None))
         \<and> sql_select_by_id (fst (update_drawing tbl now i d)) i = Some r"
  using assms by (simp add: update_drawing_def update_fields_empty_iff)

theorem update_without_fields_rejected_witness:
  "sql_select_by_id [example_row] ''d1'' = Some example_row
   \<and> update_drawing [example_row] later_time ''d1'' no_fields
       = ([example_row], Inl (HTTPException 400 ''No fields to update'' None))
   \<and> sql_select_by_id (fst (update_drawing [example_row] later_time ''d1'' no_fields)) ''d1''
       = Some example_row"
proof -
  have h: "sql_select_by_id [example_row] ''d1'' = Some example_row"
    by (simp add: sql_select_by_id_def example_row_def)
  show ?thesis
    using h update_without_fields_rejected [OF h, of no_fields later_time]
    by (simp add: no_fields_def)
qed

text \<open>
  C4. For an id with no row, get, update and delete each answer with status 404 and
  leave the table as it is. For an id with a row, delete succeeds, and on the table it
  leaves a get of that id and a second delete of it answer with status 404.
\<close>

theorem absent_id_not_found:
  "(i \<notin> row_id ` set tbl \<longrightarrow>
      get_drawing tbl i = (tbl, Inl not_found)
      \<and> update_drawing tbl now i d = (tbl, Inl not_found)
      \<and> delete_drawing tbl i = (tbl, Inl not_found))
   \<and> (i \<in> row_id ` set tbl \<longrightarrow>
      (\<exists>tbl'. delete_drawing tbl i = (tbl', Inr ''Drawing deleted successfully'')
         \<and> get_drawing tbl' i = (tbl', Inl not_found)
         \<and> delete_drawing tbl' i = (tbl', Inl not_found)))
   \<and> status_code not_found = 404"
proof (intro conjI impI)
  assume a: "i \<notin> row_id ` set tbl"
  then have s: "sql_select_by_id tbl i = None" by (simp add: select_None_iff)
  show "get_drawing tbl i = (tbl, Inl not_found)" by (simp add: get_drawing_def s)
  show "update_drawing tbl now i d = (tbl, Inl not_found)" by (simp add: update_drawing_def s)
  show "delete_drawing tbl i = (tbl, Inl not_found)" by (rule delete_absent [OF a])
next
  assume p: "i \<in> row_id ` set tbl"
  let ?t = "filter (\<lambda>r. row_id r \<noteq> i) tbl"
  have n: "i \<notin> row_id ` set ?t" by auto
  have s: "sql_select_by_id ?t i = None" unfolding select_None_iff by (rule n)
  have "delete_drawing tbl i = (?t, Inr ''Drawing deleted successfully'')"
    by (rule delete_present [OF p])
  moreover have "get_drawing ?t i = (?t, Inl not_found)" by (simp add: get_drawing_def s)
  moreover have "delete_drawing ?t i = (?t, Inl not_found)" by (rule delete_absent [OF n])
  ultimately show "\<exists>tbl'. delete_drawing tbl i = (tbl', Inr ''Drawing deleted successfully'')
         \<and> get_drawing tbl' i = (tbl', Inl not_found)
         \<and> delete_drawing tbl' i = (tbl', Inl not_found)" by blast
next
  show "status_code not_found = 404" by (simp add: not_found_def)
qed

theorem absent_id_not_found_witness:
  "get_drawing [example_row] ''d2'' = ([example_row], Inl not_found)
   \<and> update_drawing [example_row] later_time ''d2'' no_fields = ([example_row], Inl not_found)
   \<and> delete_drawing [example_row] ''d2'' = ([example_row], Inl not_found)
   \<and> delete_drawing [example_row] ''d1'' = ([], Inr ''Drawing deleted successfully'')
   \<and> get_drawing [] ''d1'' = ([], Inl not_found)
   \<and> delete_drawing [] ''d1'' = ([], Inl not_found)
   \<and> status_code not_found = 404"
proof -
  have a: "''d2'' \<notin> row_id ` set [example_row]" by (simp add: example_row_def)
  have p: "''d1'' \<in> row_id ` set [example_row]" by (simp add: example_row_def)
  have d: "delete_drawing [example_row] ''d1'' = ([], Inr ''Drawing deleted successfully'')"
    by (simp add: delete_drawing_def sql_delete_def example_row_def)
  show ?thesis
    using a p d absent_id_not_found [of "''d2''" "[example_row]" later_time no_fields]
      absent_id_not_found [of "''d1''" "[example_row]" later_time no_fields]
    by simp
qed

lemma example_create_result:
  "create_drawing [] 5 example_time example_create = ([stored_example], Inr example_response)"
  by code_simp


lemma example_update_result:
  "update_drawing [stored_example] later_time example_id rename_only
     = ([renamed_row], Inr renamed_response)"
  by code_simp

lemma example_get_result:
  "get_drawing [stored_example] example_id = ([stored_example], Inr example_response)"
  by code_simp

lemma example_list_result:
  "get_drawings [stored_example, second_row]
     = ([stored_example, second_row], Inr [second_response, example_response])"
  by code_simp

lemma example_requests_valid: "list_all valid_request example_requests"
  by code_simp


lemma serve_all_example: "serve_all example_requests = [renamed_row]"
  by (simp add: serve_all_def example_requests_def example_create_result example_update_result)

subsection \<open>Claims about creating and reading\<close>



subsection \<open>Claims about updating\<close>

text \<open>
  C2. For a record that get returns and an update request with at least one field
  present (a present \<open>canvas_state\<close> being a dict), update returns a record that a get
  on the table it leaves returns too. In that record each present field has the value
  of the request, \<open>updated_at\<close> is the clock reading of the update, and \<open>id\<close>,
  \<open>created_at\<close> and each absent field are as before. The rows of other ids and
  the ids of the table are as before.
\<close>

theorem update_overwrites_present_fields:
  assumes "get_drawing tbl i = (tbl, Inr old)"
    and "update_fields d \<noteq> []"
    and "case u_canvas_state d of None \<Rightarrow> True | Some c \<Rightarrow> python_value (JObj c)"
  shows "\<exists>tbl' new.
           update_drawing tbl now i d = (tbl', Inr new)
           \<and> get_drawing tbl' i = (tbl', Inr new)
           \<and> r_id new = r_id old
           \<and> r_name new = (case u_name d of None \<Rightarrow> r_name old | Some v \<Rightarrow> v)
           \<and> r_preview_image new =
               (case u_preview_image d of None \<Rightarrow> r_preview_image old | Some v \<Rightarrow> v)
           \<and> r_canvas_state new =
               (case u_canvas_state d of None \<Rightarrow> r_canvas_state old | Some c \<Rightarrow> c)
           \<and> r_created_at new = r_created_at old
           \<and> r_updated_at new = isoformat now
           \<and> filter (\<lambda>r. row_id r \<noteq> i) tbl' = filter (\<lambda>r. row_id r \<noteq> i) tbl
           \<and> map row_id tbl' = map row_id tbl"
  using assms by (rule update_drawing_result)

theorem update_overwrites_present_fields_witness:
  "get_drawing [stored_example] example_id = ([stored_example], Inr example_response)
   \<and> update_fields rename_only \<noteq> []
   \<and> update_drawing [stored_example] later_time example_id rename_only
       = ([renamed_row], Inr renamed_response)
   \<and> get_drawing [renamed_row] example_id = ([renamed_row], Inr renamed_response)
   \<and> r_name renamed_response = ''X''
   \<and> r_preview_image renamed_response = r_preview_image example_response
   \<and> r_canvas_state renamed_response = r_canvas_state example_response
   \<and> r_created_at renamed_response = r_created_at example_response
   \<and> r_updated_at renamed_response = isoformat later_time"
proof -
  have f: "update_fields rename_only \<noteq> []" by (simp add: update_fields_def rename_only_def)
  have c: "case u_canvas_state rename_only of None \<Rightarrow> True | Some c \<Rightarrow> python_value (JObj c)"
    by (simp add: rename_only_def)
  from update_overwrites_present_fields [OF example_get_result f c, of later_time]
  obtain tbl' new where u: "update_drawing [stored_example] later_time example_id rename_only = (tbl', Inr new)"
    and g: "get_drawing tbl' example_id = (tbl', Inr new)"
    and n: "r_name new = (case u_name rename_only of None \<Rightarrow> r_name example_response | Some v \<Rightarrow> v)"
    and p: "r_preview_image new =
        (case u_preview_image rename_only of None \<Rightarrow> r_preview_image example_response | Some v \<Rightarrow> v)"
    and s: "r_canvas_state new =
        (case u_canvas_state rename_only of None \<Rightarrow> r_canvas_state example_response | Some c \<Rightarrow> c)"
    and cr: "r_created_at new = r_created_at example_response"
    and up: "r_updated_at new = isoformat later_time"
    by blast
  from u have e: "tbl' = [renamed_row]" "new = renamed_response"
    by (simp_all add: example_update_result)
  have fields: "u_name rename_only = Some ''X''" "u_preview_image rename_only = None"
    "u_canvas_state rename_only = None"
    by (simp_all add: rename_only_def)
  from g n p s cr up show ?thesis
    unfolding e fields by (simp add: example_get_result example_update_result f)
qed

text \<open>
  C9. A body field sent as \<^verbatim>\<open>null\<close> is read as a field left out, whatever the other
  fields are. On an existing record, an update whose three fields are all \<^verbatim>\<open>null\<close> is
  the update with no field: status 400, and the table is the one before the call.
\<close>

theorem null_fields_are_absent:
  assumes "sql_select_by_id tbl i = Some r"
  shows "parse_DrawingUpdate Null Null Null = parse_DrawingUpdate Omitted Omitted Omitted
         \<and> update_drawing tbl now i (parse_DrawingUpdate Null Null Null)
             = (tbl, Inl (HTTPException 400 ''No fields to update'' None))
         \<and> update_drawing tbl now i (parse_DrawingUpdate Null Null Null)
             = update_drawing tbl now i (parse_DrawingUpdate Omitted Omitted Omitted)
         \<and> parse_DrawingUpdate Null p c = parse_DrawingUpdate Omitted p c
         \<and> parse_DrawingUpdate n Null c = parse_DrawingUpdate n Omitted c
         \<and> parse_DrawingUpdate n p Null = parse_DrawingUpdate n p Omitted"
  using assms
  by (simp add: parse_DrawingUpdate_def update_drawing_def update_fields_empty_iff)

theorem null_fields_are_absent_witness:
  "sql_select_by_id [example_row] ''d1'' = Some example_row
   \<and> parse_DrawingUpdate Null Null Null = no_fields
   \<and> update_drawing [example_row] later_time ''d1'' (parse_DrawingUpdate Null Null Null)
       = ([example_row], Inl (HTTPException 400 ''No fields to update'' None))"
proof -
  have h: "sql_select_by_id [example_row] ''d1'' = Some example_row"
    by (simp add: sql_select_by_id_def example_row_def)
  from null_fields_are_absent [OF h, of later_time] h
  show ?thesis by (simp add: parse_DrawingUpdate_def no_fields_def)
qed

subsection \<open>Claims about the id\<close>



subsection \<open>Claims about listing\<close>

text \<open>
  C6. On a table whose every \<open>canvas_state\<close> column parses to a dict, list returns one
  record for each row of the table and no other, in descending order of
  \<open>updated_at\<close>. Every table that valid requests build from the empty one is such a
  table. On the empty table list returns the empty sequence.
\<close>

theorem list_returns_all_sorted:
  "(list_all readable tbl \<longrightarrow>
      (\<exists>ds rows. get_drawings tbl = (tbl, Inr ds)
         \<and> mset rows = mset tbl
         \<and> map response_of_row rows = map Inr ds
         \<and> map r_id ds = map row_id rows
         \<and> sorted (rev (map r_updated_at ds))))
   \<and> (list_all valid_request reqs \<longrightarrow> list_all readable (serve_all reqs))
   \<and> get_drawings [] = ([], Inr [])"
proof (intro conjI impI)
  assume "list_all readable tbl"
  then show "\<exists>ds rows. get_drawings tbl = (tbl, Inr ds)
         \<and> mset rows = mset tbl
         \<and> map response_of_row rows = map Inr ds
         \<and> map r_id ds = map row_id rows
         \<and> sorted (rev (map r_updated_at ds))"
    by (rule get_drawings_result)
next
  assume "list_all valid_request reqs"
  from serve_all_serialized [OF this] show "list_all readable (serve_all reqs)"
    by (simp add: list_all_iff serialized_readable)
next
  show "get_drawings [] = ([], Inr [])"
    by (simp add: get_drawings_def sql_select_all_def)
qed

theorem list_returns_all_sorted_witness:
  "list_all readable [stored_example, second_row]
   \<and> get_drawings [stored_example, second_row]
       = ([stored_example, second_row], Inr [second_response, example_response])
   \<and> sorted (rev (map r_updated_at [second_response, example_response]))
   \<and> list_all valid_request example_requests
   \<and> list_all readable (serve_all example_requests)
   \<and> get_drawings [] = ([], Inr [])"
proof -
  have a: "list_all readable [stored_example, second_row]" by code_simp
  from list_returns_all_sorted [of "[stored_example, second_row]" example_requests] a
  obtain ds where "get_drawings [stored_example, second_row] = ([stored_example, second_row], Inr ds)"
    and s: "sorted (rev (map r_updated_at ds))"
    by blast
  then have "ds = [second_response, example_response]" by (simp add: example_list_result)
  with s a list_returns_all_sorted [of "[stored_example, second_row]" example_requests]
    example_requests_valid example_list_result
  show ?thesis by blast
qed

subsection \<open>Claims about the invariants of stored records\<close>

text \<open>
  C5, as the code has it. \<open>update_drawing\<close> stores the reading of the wall clock as
  it is, so a reading below the record's \<open>created_at\<close> (the clock set back, the hour
  repeated at the end of daylight saving time) leaves \<open>updated_at\<close> below
  \<open>created_at\<close>.
\<close>

theorem created_at_le_updated_at_counterexample:
  "list_all valid_request
     [POST_drawings 5 later_time example_create, PUT_drawing example_time example_id rename_only]
   \<and> list_ex (\<lambda>r. row_updated_at r < row_created_at r)
       (serve_all
          [POST_drawings 5 later_time example_create,
           PUT_drawing example_time example_id rename_only])"
  by code_simp

text \<open>
  C5, amended. When the clock readings that the create and update requests of a
  sequence take never decrease, the texts stored for them never decrease, and every
  record stored after the sequence has \<open>created_at \<le> updated_at\<close>. A create sets
  both to its clock reading.
\<close>

theorem created_at_le_updated_at:
  assumes "list_all valid_datetime (clock_readings reqs)"
    and "sorted (map datetime_key (clock_readings reqs))"
  shows "sorted (map isoformat (clock_readings reqs))
         \<and> (\<forall>r \<in> set (serve_all reqs). row_created_at r \<le> row_updated_at r)
         \<and> (create_drawing tbl rb now d = (tbl', Inr resp) \<longrightarrow>
              r_created_at resp = isoformat now \<and> r_updated_at resp = isoformat now)"
proof (intro conjI)
  show s: "sorted (map isoformat (clock_readings reqs))"
    using assms by (rule isoformat_sorted)
  show "\<forall>r \<in> set (serve_all reqs). row_created_at r \<le> row_updated_at r"
    unfolding serve_all_def by (rule foldl_serve_timestamps [OF s]) simp
  show "create_drawing tbl rb now d = (tbl', Inr resp) \<longrightarrow>
          r_created_at resp = isoformat now \<and> r_updated_at resp = isoformat now"
    by (simp add: create_drawing_cases del: json_dumps.simps)
qed

theorem created_at_le_updated_at_witness:
  "list_all valid_datetime (clock_readings example_requests)
   \<and> sorted (map datetime_key (clock_readings example_requests))
   \<and> serve_all example_requests = [renamed_row]
   \<and> row_created_at renamed_row \<le> row_updated_at renamed_row
   \<and> r_created_at example_response = r_updated_at example_response"
proof -
  have v: "list_all valid_datetime (clock_readings example_requests)"
    by (simp add: example_requests_def valid_datetime_def example_time_def later_time_def)
  have s: "sorted (map datetime_key (clock_readings example_requests))"
    by (simp add: example_requests_def datetime_key_def example_time_def later_time_def)
  from created_at_le_updated_at [OF v s, of "[]" 5 example_time example_create "[stored_example]" example_response]
  show ?thesis
    using v s by (simp add: serve_all_example example_create_result)
qed

text \<open>
  C7, as the code has it. \<^verbatim>\<open>name: str\<close> accepts the empty string, and neither
  handler checks it: a create with an empty name stores a record with an empty name.
\<close>

theorem name_nonempty_counterexample:
  "valid_request (POST_drawings 5 example_time (example_create\<lparr>c_name := []\<rparr>))
   \<and> list_ex (\<lambda>r. row_name r = [])
       (serve_all [POST_drawings 5 example_time (example_create\<lparr>c_name := []\<rparr>)])"
  by code_simp

text \<open>
  C7, amended. When no create request of a sequence has an empty name and no update
  request supplies one, every record stored after the sequence has a non-empty name.
\<close>

theorem name_nonempty:
  assumes "list_all names_nonempty reqs"
  shows "\<forall>r \<in> set (serve_all reqs). row_name r \<noteq> []"
  unfolding serve_all_def by (rule foldl_serve_names [OF assms]) simp

theorem name_nonempty_witness:
  "list_all names_nonempty example_requests
   \<and> serve_all example_requests = [renamed_row]
   \<and> row_name renamed_row \<noteq> []"
proof -
  have n: "list_all names_nonempty example_requests" by code_simp
  from name_nonempty [OF n] show ?thesis using n by (simp add: serve_all_example)
qed



subsection \<open>Claims about the stored \<open>canvas_state\<close>\<close>



end
